theory Spec2Isabelle
  imports Main
begin

section \<open>glsdl: a shallow embedding of main.go\<close>

text \<open>
  The program downloads the enclosures of a podcast feed in batches of goroutines and
  writes ID3 tags into each file. The embedding has three layers, each translated from
  the Go source:
  \<^item> the pure part (\<open>parseTitle\<close> with the regular expression it uses);
  \<^item> the effectful part (\<open>downloadFile\<close>, \<open>worker\<close>, the cover task): the state is the
    \<open>Glsdl\<close> struct, every call into the operating system, the network or the id3 library
    takes its outcome from an oracle record and leaves an entry in an effect trace, a
    panic is a value;
  \<^item> the scheduling part (\<open>Process\<close>): the statements the main goroutine executes on the
    wait group, and a step relation for the goroutines and \<open>sync.WaitGroup\<close>.
\<close>

subsection \<open>Strings\<close>

text \<open>
  A Go string is read here as its sequence of Unicode code points (the text is taken to
  be valid UTF-8, which is what \<open>regexp\<close> decodes it to). The pattern of \<open>NewGlsdl\<close>
  names Cyrillic letters, so a rune is a natural number and not an 8-bit \<open>char\<close>;
  \<open>str\<close> turns an ASCII literal into such a string.
\<close>

type_synonym rune = nat
type_synonym gostring = "rune list"

definition str :: "string \<Rightarrow> gostring" where
  "str s = map of_char s"

subsection \<open>The Glsdl struct\<close>

text \<open>
  The fields \<open>source\<close>, \<open>waitGroup\<close>, \<open>parsePattern\<close> and \<open>statTime\<close> of the struct are
  not fields of the record: the parsed feed is an argument, the wait group is the
  \<open>wg\<close> counter of the scheduler state below, the pattern is the constant
  \<open>parsePattern\<close>, and the elapsed time is not modelled. The counters are Go \<open>int\<close>s
  that only ever grow by one per task; they are unbounded integers here.
\<close>

record Glsdl =
  threads :: int
  downloadDir :: gostring
  statDl :: int
  statProcess :: int
  statFail :: int

subsection \<open>Process: what the main goroutine does with the wait group\<close>

text \<open>
  The statements of \<open>Process\<close> that touch the wait group or start a goroutine, in program
  order. \<open>GoWorker i item\<close> is \<open>go dl.worker(item)\<close> for the item at position \<open>i\<close> of
  \<open>feed.Items\<close>.
\<close>

datatype 'a action = WgAdd | GoCover | GoWorker nat 'a | WgWait

text \<open>
  The \<open>for _, item := range feed.Items\<close> loop with its \<open>counter\<close>, followed by the
  final \<open>if counter > 0\<close>.
\<close>

fun items_loop :: "int \<Rightarrow> int \<Rightarrow> nat \<Rightarrow> 'a list \<Rightarrow> 'a action list" where
  "items_loop T counter i [] = (if counter > 0 then [WgWait] else [])"
| "items_loop T counter i (item # rest) =
     (let counter = counter + 1 in
      WgAdd # GoWorker i item #
        (if counter \<ge> T then WgWait # items_loop T 0 (Suc i) rest
         else items_loop T counter (Suc i) rest))"

definition Process :: "Glsdl \<Rightarrow> 'a list \<Rightarrow> 'a action list" where
  "Process dl items = WgAdd # GoCover # items_loop (threads dl) 0 0 items"

text \<open>
  The batches of a run: the items whose workers are started between two consecutive
  \<open>Wait\<close> calls. Workers started after the last \<open>Wait\<close> would form a batch of their own.
\<close>

fun batches_from :: "'a action list \<Rightarrow> 'a list \<Rightarrow> 'a list list" where
  "batches_from [] cur = (if cur = [] then [] else [cur])"
| "batches_from (WgWait # as) cur = cur # batches_from as []"
| "batches_from (GoWorker i x # as) cur = batches_from as (cur @ [x])"
| "batches_from (a # as) cur = batches_from as cur"

definition batches :: "'a action list \<Rightarrow> 'a list list" where
  "batches as = batches_from as []"

fun is_wait :: "'a action \<Rightarrow> bool" where
  "is_wait WgWait = True"
| "is_wait _ = False"

subsection \<open>Goroutines and the wait group\<close>

text \<open>
  The tasks \<open>Process\<close> starts are the cover download and one worker per item. A scheduler
  state holds what the main goroutine has still to execute (\<open>pc\<close>), the counter of
  \<open>dl.waitGroup\<close> (\<open>wg\<close>), the tasks in flight (\<open>running\<close>: started, and their deferred
  \<open>waitGroup.Done()\<close> not yet executed) and the tasks that have executed it (\<open>finished\<close>).

  A step is one of: the main goroutine executes its next statement (\<open>Add(1)\<close> increments
  the counter, \<open>go\<close> puts the task in flight, \<open>Wait()\<close> can only be passed when the
  counter is zero), or a task in flight ends with its deferred \<open>Done()\<close>, which decrements
  the counter. Any interleaving of these steps is a run.
\<close>

datatype tid = Cover | Worker nat

fun is_worker :: "tid \<Rightarrow> bool" where
  "is_worker (Worker i) = True"
| "is_worker Cover = False"

record 'a sched =
  pc :: "'a action list"
  wg :: int
  running :: "tid list"
  finished :: "tid set"

inductive step :: "'a sched \<Rightarrow> 'a sched \<Rightarrow> bool" where
  add: "pc s = WgAdd # as \<Longrightarrow> step s (s\<lparr>pc := as, wg := wg s + 1\<rparr>)"
| go_cover: "pc s = GoCover # as \<Longrightarrow> step s (s\<lparr>pc := as, running := Cover # running s\<rparr>)"
| go_worker: "pc s = GoWorker i x # as \<Longrightarrow> step s (s\<lparr>pc := as, running := Worker i # running s\<rparr>)"
| wait: "pc s = WgWait # as \<Longrightarrow> wg s = 0 \<Longrightarrow> step s (s\<lparr>pc := as\<rparr>)"
| task_done: "running s = xs @ t # ys \<Longrightarrow>
     step s (s\<lparr>wg := wg s - 1, running := xs @ ys, finished := insert t (finished s)\<rparr>)"

definition init :: "Glsdl \<Rightarrow> 'a list \<Rightarrow> 'a sched" where
  "init dl items = \<lparr>pc = Process dl items, wg = 0, running = [], finished = {}\<rparr>"

definition one_thread :: Glsdl where
  "one_thread = \<lparr>threads = 1, downloadDir = [], statDl = 0, statProcess = 0, statFail = 0\<rparr>"

subsection \<open>Feed items\<close>

text \<open>
  Modelled from the spec: the type declarations of \<open>gofeed.Item\<close> and \<open>gofeed.Enclosure\<close>
  belong to the feed library and are not in the repository. The records below hold the
  fields \<open>main.go\<close> reads, as the spec's FeedItem lists them: \<open>item.Title\<close>,
  \<open>item.Published\<close>, \<open>item.Author.Name\<close>, and of each element of \<open>item.Enclosures\<close> its
  \<open>URL\<close> and \<open>Length\<close>.
\<close>

record enclosure =
  URL :: gostring
  Length :: gostring

record item =
  Title :: gostring
  Published :: gostring
  Author_Name :: gostring
  Enclosures :: "enclosure list"

subsection \<open>The title pattern\<close>

text \<open>
  \<open>NewGlsdl\<close> compiles
  \<^verbatim>\<open>^[...|Episode]+\s+([[:alnum:]]+)\.*\s*(.*?)$\<close>
  where the bracket expression starts with the six Cyrillic letters U+0412, U+044B,
  U+043F, U+0443, U+0441, U+043A. It is a character class, so it matches any one of
  these letters, \<open>|\<close>, or one of the letters of \<open>Episode\<close>. The pattern is a sequence of
  six repetitions of one character class each, anchored at both ends of the text:
  \<^item> \<open>Marker\<close>: the bracket expression, one or more, greedy;
  \<^item> \<open>Space\<close>: \<open>\s\<close> (tab, newline, form feed, carriage return, space), one or more;
  \<^item> \<open>Alnum\<close>: \<open>[[:alnum:]]\<close> (ASCII digits and letters), one or more: group 1;
  \<^item> \<open>Dot\<close>: a literal \<open>.\<close>, zero or more;
  \<^item> \<open>Space\<close>, zero or more;
  \<^item> \<open>AnyChar\<close>: \<open>.\<close> (any rune but newline), zero or more, not greedy: group 2.
\<close>

datatype cls = Marker | Space | Alnum | Dot | AnyChar

fun in_cls :: "cls \<Rightarrow> rune \<Rightarrow> bool" where
  "in_cls Marker c =
     (c \<in> set [1042, 1099, 1087, 1091, 1089, 1082, 124, 69, 112, 105, 115, 111, 100, 101])"
| "in_cls Space c = (c \<in> set [9, 10, 12, 13, 32])"
| "in_cls Alnum c = ((48 \<le> c \<and> c \<le> 57) \<or> (65 \<le> c \<and> c \<le> 90) \<or> (97 \<le> c \<and> c \<le> 122))"
| "in_cls Dot c = (c = 46)"
| "in_cls AnyChar c = (c \<noteq> 10)"

text \<open>\<open>Rep k lo greedy\<close>: at least \<open>lo\<close> runes of class \<open>k\<close>, as many as possible first when
  \<open>greedy\<close>, as few as possible first otherwise.\<close>

datatype piece = Rep cls nat bool

definition parsePattern :: "piece list" where
  "parsePattern = [Rep Marker 1 True, Rep Space 1 True, Rep Alnum 1 True, Rep Dot 0 True,
                   Rep Space 0 True, Rep AnyChar 0 False]"

text \<open>
  Go's \<open>regexp\<close> returns the match a backtracking matcher finds first. For a repetition
  the ways to split the text into what it consumes and the rest are tried in the order
  of its preference; the first split for which the remaining pieces match the rest up
  to the end of the text wins.
\<close>

fun candidates :: "piece \<Rightarrow> gostring \<Rightarrow> (gostring \<times> gostring) list" where
  "candidates (Rep k lo greedy) s =
     (let hi = length (takeWhile (in_cls k) s);
          ns = [lo ..< Suc hi]
      in map (\<lambda>n. (take n s, drop n s)) (if greedy then rev ns else ns))"

fun first_some :: "('a \<Rightarrow> 'b option) \<Rightarrow> 'a list \<Rightarrow> 'b option" where
  "first_some f [] = None"
| "first_some f (x # xs) = (case f x of Some y \<Rightarrow> Some y | None \<Rightarrow> first_some f xs)"

fun match_seq :: "piece list \<Rightarrow> gostring \<Rightarrow> gostring list option" where
  "match_seq [] s = (if s = [] then Some [] else None)"
| "match_seq (p # ps) s =
     first_some (\<lambda>(m, r). map_option ((#) m) (match_seq ps r)) (candidates p s)"

text \<open>\<open>dl.parsePattern.FindStringSubmatch\<close>: the whole match and the two groups, or the
  empty slice when the text does not match.\<close>

definition FindStringSubmatch :: "gostring \<Rightarrow> gostring list" where
  "FindStringSubmatch s =
     (case match_seq parsePattern s of
        None \<Rightarrow> []
      | Some ms \<Rightarrow> [concat ms, ms ! 2, ms ! 5])"

subsection \<open>parseTitle\<close>

text \<open>
  \<open>ps\<close> is \<open>string(os.PathSeparator)\<close>, a string of one rune that depends on the platform;
  the rune is the parameter \<open>PS\<close>. \<open>strings.Replace(title, ps, "_", -1)\<close> with a one-rune
  \<open>ps\<close> replaces every occurrence of that rune.
\<close>

definition strings_Replace :: "gostring \<Rightarrow> rune \<Rightarrow> gostring \<Rightarrow> gostring" where
  "strings_Replace s old new = concat (map (\<lambda>c. if c = old then new else [c]) s)"

definition parseTitle :: "rune \<Rightarrow> item \<Rightarrow> gostring \<times> gostring" where
  "parseTitle PS it =
     (let res = FindStringSubmatch (Title it) in
      if length res = 0 then ([], Title it)
      else
        let prefix = res ! 1;
            title = res ! 2;
            title = (if length title = 0 then Author_Name it else title);
            title = strings_Replace title PS (str ''_'')
        in (prefix, title))"

subsection \<open>Effects\<close>

text \<open>
  Every call that leaves the program is an entry of an effect trace, in the order the
  calls happen. The outcome of each call one task makes comes from an oracle record:
  \<open>None\<close> is Go's \<open>nil\<close> error. Nothing is assumed about how the outcomes depend on the
  paths, the URL or on earlier calls, so what is proved holds for every file system and
  every network.
\<close>

datatype error = Error gostring

datatype effect =
    OsStat gostring
  | OsCreate gostring
  | HttpGet gostring
  | IoCopy
  | BodyClose
  | FileClose
  | LogPrintln error
  | FmtPrintln gostring
  | Id3Open gostring
  | SetTitle gostring
  | SetArtist gostring
  | SetAlbum gostring
  | SetGenre gostring
  | SetYear gostring
  | TagClose

record io =
  stat_not_exist :: bool
  create_err :: "error option"
  get_err :: "error option"
  copy_err :: "error option"
  body_close_err :: "error option"
  fh_close_err :: "error option"
  open_err :: "error option"
  tag_close_err :: "error option"

subsection \<open>downloadFile\<close>

text \<open>The two deferred closures: each closes and logs a close error, which never reaches
  the result (\<open>err\<close> inside the closure is a new variable).\<close>

definition close_fh :: "io \<Rightarrow> effect list" where
  "close_fh io = FileClose # (case fh_close_err io of Some e \<Rightarrow> [LogPrintln e] | None \<Rightarrow> [])"

definition close_body :: "io \<Rightarrow> effect list" where
  "close_body io = BodyClose # (case body_close_err io of Some e \<Rightarrow> [LogPrintln e] | None \<Rightarrow> [])"

definition downloadFile ::
  "Glsdl \<Rightarrow> io \<Rightarrow> gostring \<Rightarrow> gostring \<Rightarrow> error option \<times> Glsdl \<times> effect list" where
  "downloadFile dl io url dest =
     (case create_err io of
        Some e \<Rightarrow> (Some e, dl, [OsCreate dest])
      | None \<Rightarrow>
         (case get_err io of
            Some e \<Rightarrow> (Some e, dl, [OsCreate dest, HttpGet url] @ close_fh io)
          | None \<Rightarrow>
             (case copy_err io of
                Some e \<Rightarrow>
                  (Some e, dl, [OsCreate dest, HttpGet url, IoCopy] @ close_body io @ close_fh io)
              | None \<Rightarrow>
                  (None, dl\<lparr>statDl := statDl dl + 1\<rparr>,
                   [OsCreate dest, HttpGet url, IoCopy] @ close_body io @ close_fh io))))"

subsection \<open>Time and number formatting\<close>

text \<open>
  \<open>time.Parse\<close> is the standard library's: the parser of the layout is the parameter
  \<open>rfc\<close> (\<open>None\<close> for a text that is not in the layout). On an error \<open>time.Parse\<close> returns
  the zero \<open>Time\<close>, which is January 1 of year 1. Only \<open>Year()\<close> is read.
\<close>

record gotime =
  Year :: int

definition zero_time :: gotime where
  "zero_time = \<lparr>Year = 1\<rparr>"

definition time_Parse :: "(gostring \<Rightarrow> gotime option) \<Rightarrow> gostring \<Rightarrow> gotime \<times> error option" where
  "time_Parse rfc s =
     (case rfc s of
        Some t \<Rightarrow> (t, None)
      | None \<Rightarrow> (zero_time, Some (Error (str ''parsing time''))))"

function digits :: "nat \<Rightarrow> gostring" where
  "digits n = (if n < 10 then [48 + n] else digits (n div 10) @ [48 + n mod 10])"
  by pat_completeness auto
termination
  by (relation "measure id") auto

declare digits.simps [simp del]

definition Itoa :: "int \<Rightarrow> gostring" where
  "Itoa i = (if i < 0 then 45 # digits (nat (- i)) else digits (nat i))"

fun strings_Join :: "gostring list \<Rightarrow> gostring \<Rightarrow> gostring" where
  "strings_Join [] sep = []"
| "strings_Join [x] sep = x"
| "strings_Join (x # xs) sep = x @ sep @ strings_Join xs sep"

subsection \<open>worker\<close>

text \<open>
  \<open>item.Enclosures[0]\<close> on an empty slice is a run-time panic, which ends the whole
  program; it is the \<open>Inl\<close> result. Otherwise the worker returns nothing: the result is
  the struct with its counters and the trace. The error of \<open>tag.Close()\<close> is assigned to
  \<open>_\<close>; the error of \<open>time.Parse\<close> likewise. The deferred \<open>dl.waitGroup.Done()\<close> is the
  \<open>task_done\<close> step of the scheduler above.
\<close>

datatype panic = IndexOutOfRange

definition worker ::
  "rune \<Rightarrow> (gostring \<Rightarrow> gotime option) \<Rightarrow> Glsdl \<Rightarrow> io \<Rightarrow> item \<Rightarrow> panic + (Glsdl \<times> effect list)" where
  "worker PS rfc dl io it =
     (case Enclosures it of
        [] \<Rightarrow> Inl IndexOutOfRange
      | enc # _ \<Rightarrow>
         if length (Length enc) = 0 then Inr (dl, [])
         else
           let (prefix, title) = parseTitle PS it;
               finalTitle = str ''['' @ prefix @ str ''] '' @ title;
               filename = downloadDir dl @ [PS] @ prefix @ str '' - '' @ title @ str ''.mp3'';
               (err, dl1, effs, opts) =
                 (if stat_not_exist io
                  then (let (err, dl1, effs) = downloadFile dl io (URL enc) filename
                        in (err, dl1, OsStat filename # effs, [str ''dl'']))
                  else (None, dl, [OsStat filename], []))
           in case err of
                Some e \<Rightarrow> Inr (dl1\<lparr>statFail := statFail dl1 + 1\<rparr>, effs @ [LogPrintln e])
              | None \<Rightarrow>
                 (case open_err io of
                    Some e \<Rightarrow>
                      Inr (dl1\<lparr>statFail := statFail dl1 + 1\<rparr>,
                           effs @ [Id3Open filename, LogPrintln e])
                  | None \<Rightarrow>
                      let (published, _) = time_Parse rfc (Published it);
                          opts = opts @ [str ''id3'']
                      in Inr (dl1\<lparr>statProcess := statProcess dl1 + 1\<rparr>,
                           effs @
                           [Id3Open filename,
                            SetTitle finalTitle,
                            SetArtist (Author_Name it),
                            SetAlbum (str ''GolangShow''),
                            SetGenre (str ''Technology''),
                            SetYear (Itoa (Year published)),
                            FmtPrintln (str ''* '' @ finalTitle @ str '' ['' @
                                        strings_Join opts (str ''+'') @ str '']''),
                            TagClose])))"

subsection \<open>The cover task and the counters of a run\<close>

definition cover_task :: "rune \<Rightarrow> Glsdl \<Rightarrow> io \<Rightarrow> gostring \<Rightarrow> Glsdl \<times> effect list" where
  "cover_task PS dl io image_url =
     (let filename = downloadDir dl @ [PS] @ str ''cover.png'';
          (err, dl1, effs) = downloadFile dl io image_url filename
      in (dl1\<lparr>statProcess := statProcess dl1 + 1\<rparr>,
          effs @ (case err of Some e \<Rightarrow> [LogPrintln e] | None \<Rightarrow> []) @
          [FmtPrintln (str ''* cover file'')]))"

text \<open>
  The counters when \<open>Process\<close> returns. The tasks only add one to a counter, so the
  counters of finished tasks are the same for every order in which the tasks ran, as
  long as no increment is lost (the increments are plain \<open>dl.statX++\<close> on shared memory;
  the run modelled here is one in which each increment is applied, which every schedule
  that runs one task at a time is).

  With at least one item \<open>Process\<close> passes a \<open>Wait\<close> after the last worker is started, so
  at its return the cover task and every worker have finished
  (\<open>Process_returns_after_all_tasks_any_limit\<close> below): the counters are those of the
  cover task and of the workers in feed order, each item paired with the outcomes of the
  calls its worker makes, up to a panic.

  With no items \<open>Process\<close> executes no \<open>Wait\<close>: it returns with the cover task anywhere
  between not yet started and finished. \<open>cover_progress\<close> says how far the cover task
  has got at that moment: nothing done, \<open>downloadFile\<close> returned, or \<open>statProcess++\<close>
  done as well.
\<close>

datatype cover_progress = CoverPending | CoverDownloaded | CoverFinished

definition cover_at_return :: "rune \<Rightarrow> Glsdl \<Rightarrow> io \<Rightarrow> gostring \<Rightarrow> cover_progress \<Rightarrow> Glsdl" where
  "cover_at_return PS dl io image_url progress =
     (case progress of
        CoverPending \<Rightarrow> dl
      | CoverDownloaded \<Rightarrow>
          fst (snd (downloadFile dl io image_url (downloadDir dl @ [PS] @ str ''cover.png'')))
      | CoverFinished \<Rightarrow> fst (cover_task PS dl io image_url))"

fun run_workers ::
  "rune \<Rightarrow> (gostring \<Rightarrow> gotime option) \<Rightarrow> Glsdl \<Rightarrow> (item \<times> io) list \<Rightarrow> panic + Glsdl" where
  "run_workers PS rfc dl [] = Inr dl"
| "run_workers PS rfc dl ((it, io) # rest) =
     (case worker PS rfc dl io it of
        Inl p \<Rightarrow> Inl p
      | Inr (dl', effs) \<Rightarrow> run_workers PS rfc dl' rest)"

definition Process_counters ::
  "rune \<Rightarrow> (gostring \<Rightarrow> gotime option) \<Rightarrow> Glsdl \<Rightarrow> io \<Rightarrow> gostring \<Rightarrow> cover_progress \<Rightarrow>
     (item \<times> io) list \<Rightarrow> panic + Glsdl" where
  "Process_counters PS rfc dl cover_io image_url progress jobs =
     (if jobs = [] then Inr (cover_at_return PS dl cover_io image_url progress)
      else
        let (dl1, effs) = cover_task PS dl cover_io image_url
        in run_workers PS rfc dl1 jobs)"

text \<open>\<open>NewGlsdl\<close>: the struct a run starts from (\<open>home\<close> is the user's home directory).\<close>

definition NewGlsdl :: "rune \<Rightarrow> gostring \<Rightarrow> int \<Rightarrow> Glsdl" where
  "NewGlsdl PS home n =
     \<lparr>threads = n,
      downloadDir = strings_Join [home, str ''Music'', str ''Podcast'', str ''GolangShow''] [PS],
      statDl = 0, statProcess = 0, statFail = 0\<rparr>"

subsection \<open>Names for what the worker computes\<close>

text \<open>The file name, the tag title and the tag calls of the worker, for the statements
  below; each repeats the expression of \<open>worker\<close>.\<close>

definition filename_of :: "rune \<Rightarrow> Glsdl \<Rightarrow> item \<Rightarrow> gostring" where
  "filename_of PS dl it =
     downloadDir dl @ [PS] @ fst (parseTitle PS it) @ str '' - '' @ snd (parseTitle PS it) @ str ''.mp3''"

definition finalTitle_of :: "rune \<Rightarrow> item \<Rightarrow> gostring" where
  "finalTitle_of PS it = str ''['' @ fst (parseTitle PS it) @ str ''] '' @ snd (parseTitle PS it)"

definition tag_effects :: "rune \<Rightarrow> (gostring \<Rightarrow> gotime option) \<Rightarrow> item \<Rightarrow> gostring list \<Rightarrow> effect list" where
  "tag_effects PS rfc it opts =
     [SetTitle (finalTitle_of PS it),
      SetArtist (Author_Name it),
      SetAlbum (str ''GolangShow''),
      SetGenre (str ''Technology''),
      SetYear (Itoa (Year (fst (time_Parse rfc (Published it))))),
      FmtPrintln (str ''* '' @ finalTitle_of PS it @ str '' ['' @ strings_Join opts (str ''+'') @ str '']''),
      TagClose]"

text \<open>The effects of a download: creating the file, the request, the copy.\<close>

fun is_download :: "effect \<Rightarrow> bool" where
  "is_download (OsCreate d) = True"
| "is_download (HttpGet u) = True"
| "is_download IoCopy = True"
| "is_download _ = False"

text \<open>An item whose first enclosure has an empty \<open>Length\<close>, and the number of such
  items of a run.\<close>

definition empty_length :: "item \<Rightarrow> bool" where
  "empty_length it = (case Enclosures it of [] \<Rightarrow> False | enc # rest \<Rightarrow> Length enc = [])"

definition count_empty :: "(item \<times> io) list \<Rightarrow> nat" where
  "count_empty jobs = length (filter (empty_length \<circ> fst) jobs)"

subsection \<open>Concrete inputs\<close>

text \<open>An item, call outcomes and a struct used where a statement is evaluated.\<close>

definition slash :: rune where
  "slash = of_char CHR ''/''"

definition no_rfc :: "gostring \<Rightarrow> gotime option" where
  "no_rfc s = None"

definition enc1 :: enclosure where
  "enc1 = \<lparr>URL = str ''http://x/1.mp3'', Length = str ''100''\<rparr>"

definition ep1 :: item where
  "ep1 = \<lparr>Title = str ''Episode 1. Intro'', Published = str ''yesterday'', Author_Name = str ''Ann'',
          Enclosures = [enc1]\<rparr>"

definition io_ok :: io where
  "io_ok = \<lparr>stat_not_exist = True, create_err = None, get_err = None, copy_err = None,
            body_close_err = None, fh_close_err = None, open_err = None, tag_close_err = None\<rparr>"

definition dl0 :: Glsdl where
  "dl0 = NewGlsdl slash (str ''/home/u'') 4"

definition io_exists :: io where
  "io_exists = io_ok\<lparr>stat_not_exist := False\<rparr>"

definition io_bad_tag :: io where
  "io_bad_tag = io_ok\<lparr>open_err := Some (Error (str ''not an mp3''))\<rparr>"

subsection \<open>The invariant of the scheduler\<close>

text \<open>
  The invariant of the scheduler follows the main goroutine through \<open>Process\<close>: \<open>b\<close> is
  the index of the first item of the current batch and \<open>i\<close> the index of the next item.
  Workers below \<open>i\<close> have been started, workers below \<open>b\<close> have finished, and the wait
  group counter is the number of tasks in flight (plus one between \<open>Add\<close> and \<open>go\<close>).
\<close>

definition common :: "nat \<Rightarrow> nat \<Rightarrow> nat \<Rightarrow> 'a sched \<Rightarrow> bool" where
  "common n b i s \<longleftrightarrow>
     (\<forall>j. Worker j \<in> set (running s) \<union> finished s \<longrightarrow> j < i) \<and>
     (\<forall>j<i. Worker j \<in> set (running s) \<union> finished s) \<and>
     (\<forall>j<b. Worker j \<in> finished s \<and> Worker j \<notin> set (running s)) \<and>
     length (filter is_worker (running s)) \<le> i - b \<and> b \<le> i \<and> n dvd b \<and>
     Cover \<in> set (running s) \<union> finished s \<and>
     (0 < b \<longrightarrow> Cover \<in> finished s \<and> Cover \<notin> set (running s))"

definition after_spawn :: "nat \<Rightarrow> nat \<Rightarrow> nat \<Rightarrow> 'a list \<Rightarrow> 'a action list" where
  "after_spawn n b i items =
     (if int n \<le> int (i - b) + 1 then WgWait # items_loop (int n) 0 (Suc i) (drop (Suc i) items)
      else items_loop (int n) (int (i - b) + 1) (Suc i) (drop (Suc i) items))"

definition at_start :: "nat \<Rightarrow> 'a list \<Rightarrow> 'a sched \<Rightarrow> bool" where
  "at_start n items s \<longleftrightarrow>
     pc s = WgAdd # GoCover # items_loop (int n) 0 0 items \<and> wg s = 0 \<and> running s = [] \<and> finished s = {}"

definition at_go_cover :: "nat \<Rightarrow> 'a list \<Rightarrow> 'a sched \<Rightarrow> bool" where
  "at_go_cover n items s \<longleftrightarrow>
     pc s = GoCover # items_loop (int n) 0 0 items \<and> wg s = 1 \<and> running s = [] \<and> finished s = {}"

definition at_loop :: "nat \<Rightarrow> 'a list \<Rightarrow> nat \<Rightarrow> nat \<Rightarrow> 'a sched \<Rightarrow> bool" where
  "at_loop n items b i s \<longleftrightarrow>
     pc s = items_loop (int n) (int (i - b)) i (drop i items) \<and> i \<le> length items \<and> i - b < n \<and>
     wg s = int (length (running s)) \<and> common n b i s"

definition at_go :: "nat \<Rightarrow> 'a list \<Rightarrow> nat \<Rightarrow> nat \<Rightarrow> 'a sched \<Rightarrow> bool" where
  "at_go n items b i s \<longleftrightarrow>
     pc s = GoWorker i (items ! i) # after_spawn n b i items \<and> i < length items \<and> i - b < n \<and>
     wg s = int (length (running s)) + 1 \<and> common n b i s"

definition at_wait :: "nat \<Rightarrow> 'a list \<Rightarrow> nat \<Rightarrow> nat \<Rightarrow> 'a sched \<Rightarrow> bool" where
  "at_wait n items b i s \<longleftrightarrow>
     pc s = WgWait # items_loop (int n) 0 i (drop i items) \<and> i \<le> length items \<and> i - b = n \<and>
     wg s = int (length (running s)) \<and> common n b i s"

definition at_end :: "'a list \<Rightarrow> 'a sched \<Rightarrow> bool" where
  "at_end items s \<longleftrightarrow>
     pc s = [] \<and> running s = [] \<and> Cover \<in> finished s \<and>
     (\<forall>j. Worker j \<in> finished s \<longleftrightarrow> j < length items)"

definition sched_inv :: "nat \<Rightarrow> 'a list \<Rightarrow> 'a sched \<Rightarrow> bool" where
  "sched_inv n items s \<longleftrightarrow>
     at_start n items s \<or> at_go_cover n items s \<or> (\<exists>b i. at_loop n items b i s) \<or>
     (\<exists>b i. at_go n items b i s) \<or> (\<exists>b i. at_wait n items b i s) \<or> at_end items s"

section \<open>Verified properties\<close>

subsection \<open>Batches of the main loop\<close>

lemma ceil_partial: "0 < c \<Longrightarrow> c < n \<Longrightarrow> (c + n - Suc 0) div n = Suc 0" for c n :: nat
proof -
  assume a: "0 < c" "c < n"
  have "c + n - Suc 0 = (c - 1) + 1 * n" using a by simp
  also have "\<dots> div n = (c - 1) div n + 1" using a by (subst div_mult_self1) auto
  finally show ?thesis using a by simp
qed

lemma ceil_step: "0 < n \<Longrightarrow> (n + m + n - Suc 0) div n = Suc ((m + n - Suc 0) div n)" for m n :: nat
proof -
  assume a: "0 < n"
  have "n + m + n - Suc 0 = (m + n - 1) + 1 * n" using a by simp
  also have "\<dots> div n = (m + n - 1) div n + 1" using a by (subst div_mult_self1) auto
  finally show ?thesis by simp
qed

lemma loop_batches_length:
  fixes n :: nat
  assumes "0 < n" "length cur < n"
  shows "length (batches_from (items_loop (int n) (int (length cur)) i xs) cur)
           = (length cur + length xs + n - 1) div n"
  using assms
proof (induction xs arbitrary: cur i)
  case Nil
  then show ?case by (auto simp: div_eq_0_iff ceil_partial)
next
  case (Cons x xs)
  show ?case
  proof (cases "length cur + 1 = n")
    case True
    have ih: "length (batches_from (items_loop (int n) 0 (Suc i) xs) []) = (length xs + n - 1) div n"
      using Cons.IH[of "[]" "Suc i"] Cons.prems by simp
    have "length cur + length (x # xs) + n - 1 = n + length xs + n - Suc 0"
      using True by simp
    then show ?thesis using True ih Cons.prems ceil_step[of n "length xs"]
      by (simp add: Let_def)
  next
    case False
    then have lt: "length (cur @ [x]) < n" using Cons.prems by simp
    show ?thesis using Cons.IH[OF Cons.prems(1) lt, of "Suc i"] False Cons.prems
      by (simp add: Let_def add.commute)
  qed
qed

lemma loop_batches_nth:
  fixes n :: nat
  assumes "0 < n" "length cur < n"
    and "k < length (batches_from (items_loop (int n) (int (length cur)) i xs) cur)"
  shows "batches_from (items_loop (int n) (int (length cur)) i xs) cur ! k
              = take n (drop (k * n) (cur @ xs))"
  using assms
proof (induction xs arbitrary: cur i k)
  case Nil
  then show ?case by (auto split: if_splits)
next
  case (Cons x xs)
  show ?case
  proof (cases "length cur + 1 = n")
    case True
    show ?thesis
    proof (cases k)
      case 0
      have "n - length cur = Suc 0" using True by simp
      then show ?thesis using 0 True Cons.prems by (simp add: Let_def)
    next
      case (Suc k')
      have kl: "k' < length (batches_from (items_loop (int n) (int (length ([]::'a list))) (Suc i) xs) [])"
        using Cons.prems(3) True Suc by (simp add: Let_def)
      have "batches_from (items_loop (int n) (int (length ([]::'a list))) (Suc i) xs) [] ! k'
             = take n (drop (k' * n) ([] @ xs))"
        using Cons.IH[OF Cons.prems(1) _ kl] Cons.prems(1) by simp
      moreover have "drop (k * n) (cur @ x # xs) = drop (k' * n) xs"
      proof -
        have "n + k' * n - length cur = Suc (k' * n)" using True by simp
        then show ?thesis using True Suc by simp
      qed
      ultimately show ?thesis using True Suc Cons.prems by (simp add: Let_def)
    qed
  next
    case False
    then have lt: "length (cur @ [x]) < n" using Cons.prems by simp
    have kl: "k < length (batches_from (items_loop (int n) (int (length (cur @ [x]))) (Suc i) xs) (cur @ [x]))"
      using Cons.prems(3) False Cons.prems(2) by (simp add: Let_def add.commute)
    show ?thesis using Cons.IH[OF Cons.prems(1) lt kl] False Cons.prems
      by (simp add: Let_def add.commute)
  qed
qed

lemma loop_batches_concat:
  "concat (batches_from (items_loop T c i xs) cur) = cur @ xs"
  by (induction xs arbitrary: c i cur) (auto simp: Let_def)


lemma loop_waits:
  "0 \<le> c \<Longrightarrow> (0 < c) = (cur \<noteq> []) \<Longrightarrow>
   length (filter is_wait (items_loop T c i xs)) = length (batches_from (items_loop T c i xs) cur)"
proof (induction xs arbitrary: c i cur)
  case Nil
  then show ?case by auto
next
  case (Cons x xs)
  have a: "length (filter is_wait (items_loop T 0 (Suc i) xs))
            = length (batches_from (items_loop T 0 (Suc i) xs) [])"
    by (rule Cons.IH) simp_all
  have b: "length (filter is_wait (items_loop T (c + 1) (Suc i) xs))
            = length (batches_from (items_loop T (c + 1) (Suc i) xs) (cur @ [x]))"
    by (rule Cons.IH) (use Cons.prems in simp_all)
  show ?case using a b by (simp add: Let_def)
qed

lemma chunk_sizes:
  fixes n N k :: nat
  assumes "0 < n" "k < (N + n - 1) div n"
  shows "min n (N - k * n) = (if Suc k < (N + n - 1) div n then n else if N mod n = 0 then n else N mod n)"
proof -
  define q where "q = N div n"
  define r where "r = N mod n"
  have N: "N = q * n + r" and r: "r < n" using assms(1) by (simp_all add: q_def r_def)
  have L: "(N + n - 1) div n = (if r = 0 then q else Suc q)"
  proof (cases "r = 0")
    case True
    have "N + n - 1 = (n - 1) + q * n" using N True assms(1) by simp
    also have "\<dots> div n = (n - 1) div n + q"
      using div_mult_self1[of n "n - 1" q] assms(1) by (simp only: add.commute neq0_conv)
    finally show ?thesis using True assms(1) by (simp add: div_eq_0_iff)
  next
    case False
    have "N + n - 1 = (r - 1) + Suc q * n" using N False assms(1) by simp
    also have "\<dots> div n = (r - 1) div n + Suc q"
      using div_mult_self1[of n "r - 1" "Suc q"] assms(1) by (simp only: add.commute neq0_conv)
    finally show ?thesis using False r by (simp add: div_eq_0_iff)
  qed
  show ?thesis
  proof (cases "Suc k < (N + n - 1) div n")
    case True
    then have "Suc k \<le> q" using L by (auto split: if_splits)
    then have "Suc k * n \<le> q * n" by (rule mult_le_mono1)
    then have "n \<le> N - k * n" using N by simp
    then show ?thesis using True by simp
  next
    case False
    then have kL: "Suc k = (N + n - 1) div n" using assms(2) by simp
    show ?thesis
    proof (cases "r = 0")
      case True
      then have "Suc k = q" using kL L by simp
      then have "N = k * n + n" using N True by (metis add.commute add.right_neutral mult_Suc)
      then show ?thesis using False True r_def by simp
    next
      case False2: False
      then have "k = q" using kL L by simp
      then have "N - k * n = r" using N by simp
      then show ?thesis using False False2 r r_def by simp
    qed
  qed
qed


text \<open>
  Claim C1. For a concurrency limit \<open>T \<ge> 1\<close> and \<open>N\<close> feed items, the workers that
  \<open>Process\<close> starts between consecutive \<open>Wait\<close> calls partition the items, in feed
  order, into exactly \<open>ceil (N / T)\<close> batches; every batch but the last has \<open>T\<close> items and
  the last has \<open>N mod T\<close> items, or \<open>T\<close> when \<open>N mod T = 0\<close>. Every batch is closed by a
  \<open>Wait\<close>: the number of \<open>Wait\<close> calls is the number of batches.
\<close>

theorem Process_batches:
  assumes "1 \<le> threads dl"
  shows "let T = nat (threads dl); N = length items; bs = batches (Process dl items) in
      concat bs = items \<and>
      length bs = (N + T - 1) div T \<and>
      (\<forall>k < length bs. length (bs ! k) =
          (if Suc k < length bs then T else if N mod T = 0 then T else N mod T)) \<and>
      length (filter is_wait (Process dl items)) = length bs"
proof -
  define n where "n = nat (threads dl)"
  have n: "0 < n" and T: "threads dl = int n" using assms by (simp_all add: n_def)
  have bs: "batches (Process dl items) = batches_from (items_loop (int n) (int (length ([]::'a list))) 0 items) []"
    by (simp add: batches_def Process_def T)
  have len: "length (batches (Process dl items)) = (length items + n - 1) div n"
    unfolding bs using loop_batches_length[OF n, of "[]" 0 items] n by simp
  have nth: "length (batches (Process dl items) ! k) = min n (length items - k * n)"
    if "k < length (batches (Process dl items))" for k
    using loop_batches_nth[OF n, of "[]" k 0 items] that n unfolding bs by simp
  have cat: "concat (batches (Process dl items)) = items"
    unfolding bs by (simp add: loop_batches_concat)
  have waits: "length (filter is_wait (Process dl items)) = length (batches (Process dl items))"
    unfolding bs using loop_waits[of 0 "[]" "int n" 0 items] by (simp add: Process_def T)
  have sizes: "length (batches (Process dl items) ! k) =
          (if Suc k < length (batches (Process dl items)) then n
           else if length items mod n = 0 then n else length items mod n)"
    if "k < length (batches (Process dl items))" for k
    using nth[OF that] chunk_sizes[OF n, of k "length items"] that len by simp
  show ?thesis
    unfolding Let_def n_def[symmetric] using cat len sizes waits by blast
qed

theorem Process_batches_witness:
  "(1::int) \<le> threads \<lparr>threads = 2, downloadDir = [], statDl = 0, statProcess = 0, statFail = 0\<rparr> \<and>
   batches (Process \<lparr>threads = 2, downloadDir = [], statDl = 0, statProcess = 0, statFail = 0\<rparr>
      [10, 20, 30 :: nat]) = [[10, 20], [30]] \<and>
   length (batches (Process \<lparr>threads = 2, downloadDir = [], statDl = 0, statProcess = 0, statFail = 0\<rparr>
      [10, 20, 30 :: nat])) = (3 + 2 - 1) div 2"
  using Process_batches [of "\<lparr>threads = 2, downloadDir = [], statDl = 0, statProcess = 0, statFail = 0\<rparr>"
      "[10, 20, 30 :: nat]"]
  by (simp add: Process_def batches_def Let_def)

subsection \<open>The batch barrier\<close>

lemmas at_defs = at_start_def at_go_cover_def at_loop_def at_go_def at_wait_def at_end_def

lemma loop_unfold:
  assumes "i < length items"
  shows "items_loop (int n) (int (i - b)) i (drop i items)
          = WgAdd # GoWorker i (items ! i) # after_spawn n b i items"
proof -
  have "drop i items = items ! i # drop (Suc i) items"
    using assms by (simp add: Cons_nth_drop_Suc)
  then show ?thesis by (simp add: after_spawn_def Let_def)
qed

lemma inv_init: "threads dl = int n \<Longrightarrow> sched_inv n items (init dl items)"
  by (simp add: sched_inv_def at_start_def init_def Process_def)

lemma common_done:
  assumes "common n b i s" "running s = xs @ t # ys"
  shows "common n b i (s\<lparr>wg := w, running := xs @ ys, finished := insert t (finished s)\<rparr>)"
  using assms unfolding common_def by (cases "is_worker t") auto

lemma loop_not_go_cover: "items_loop T c i xs \<noteq> GoCover # as"
  by (cases xs) (auto simp: Let_def)

lemma loop_not_go_worker: "items_loop T c i xs \<noteq> GoWorker j x # as"
  by (cases xs) (auto simp: Let_def)

lemma loop_wait: "items_loop T c i xs = WgWait # as \<Longrightarrow> xs = [] \<and> as = []"
  by (cases xs) (auto simp: Let_def split: if_splits)

lemma after_spawn_cases:
  assumes "i - b < n" "b \<le> i"
  shows "(Suc i - b = n \<and> after_spawn n b i items = WgWait # items_loop (int n) 0 (Suc i) (drop (Suc i) items))
       \<or> (Suc i - b < n \<and> after_spawn n b i items = items_loop (int n) (int (Suc i - b)) (Suc i) (drop (Suc i) items))"
proof -
  have e: "int (i - b) + 1 = int (Suc i - b)" using assms(2) by (simp add: Suc_diff_le)
  have a: "after_spawn n b i items =
      (if int n \<le> int (Suc i - b) then WgWait # items_loop (int n) 0 (Suc i) (drop (Suc i) items)
       else items_loop (int n) (int (Suc i - b)) (Suc i) (drop (Suc i) items))"
    unfolding after_spawn_def e by (rule refl)
  have "Suc i - b = n \<or> Suc i - b < n" using assms by linarith
  then show ?thesis
  proof
    assume h: "Suc i - b = n"
    then have "int n \<le> int (Suc i - b)" by (simp only: order_refl)
    then show ?thesis using a h by (simp only: if_True simp_thms)
  next
    assume h: "Suc i - b < n"
    then have "\<not> int n \<le> int (Suc i - b)" by (simp only: of_nat_le_iff not_le)
    then show ?thesis using a h by (simp only: if_False simp_thms)
  qed
qed

lemma inv_step:
  assumes n: "0 < n" and inv: "sched_inv n items s" and st: "step s s'"
  shows "sched_inv n items s'"
  using st
proof cases
  case (add as)
  then have "at_start n items s \<or> (\<exists>b i. at_loop n items b i s)"
    using inv by (auto simp: sched_inv_def at_defs)
  then show ?thesis
  proof
    assume "at_start n items s"
    then have "at_go_cover n items s'" using add by (simp add: at_defs)
    then show ?thesis by (simp add: sched_inv_def)
  next
    assume "\<exists>b i. at_loop n items b i s"
    then obtain b i where L: "at_loop n items b i s" by blast
    have "i < length items"
    proof (rule ccontr)
      assume "\<not> i < length items"
      then have "drop i items = []" by simp
      then show False using L add by (auto simp: at_loop_def split: if_splits)
    qed
    then have "at_go n items b i s'"
      using L add loop_unfold[of i items n b] by (simp add: at_defs common_def)
    then show ?thesis unfolding sched_inv_def by blast
  qed
next
  case (go_cover as)
  then have "at_go_cover n items s"
    using inv by (auto simp: sched_inv_def at_defs loop_not_go_cover[symmetric])
  then have "at_loop n items 0 0 s'" using go_cover n by (simp add: at_defs common_def)
  then show ?thesis unfolding sched_inv_def by blast
next
  case (go_worker i x as)
  then have "\<exists>b i. at_go n items b i s"
    using inv by (auto simp: sched_inv_def at_defs loop_not_go_worker[symmetric])
  then obtain b i' where G: "at_go n items b i' s" by blast
  then have i: "i' = i" and as: "as = after_spawn n b i items" using go_worker by (simp_all add: at_go_def)
  have c: "common n b i s" and bi: "i - b < n" "i < length items" and w: "wg s = int (length (running s)) + 1"
    using G i by (simp_all add: at_go_def)
  have c': "common n b (Suc i) s'"
    using c go_worker unfolding common_def by (auto simp: less_Suc_eq)
  have "b \<le> i" using c by (simp add: common_def)
  from after_spawn_cases[OF bi(1) this, of items] consider "Suc i - b = n" "as = WgWait # items_loop (int n) 0 (Suc i) (drop (Suc i) items)"
    | "Suc i - b < n" "as = items_loop (int n) (int (Suc i - b)) (Suc i) (drop (Suc i) items)"
    using as by auto
  then show ?thesis
  proof cases
    case 1
    then have "at_wait n items b (Suc i) s'" using go_worker c' bi w by (simp add: at_defs)
    then show ?thesis unfolding sched_inv_def by blast
  next
    case 2
    then have "at_loop n items b (Suc i) s'" using go_worker c' bi w by (simp add: at_defs)
    then show ?thesis unfolding sched_inv_def by blast
  qed
next
  case (wait as)
  have "(\<exists>b i. at_wait n items b i s) \<or> (\<exists>b i. at_loop n items b i s \<and> drop i items = [] \<and> as = [])"
  proof -
    from inv consider (W) b i where "at_wait n items b i s" | (L) b i where "at_loop n items b i s"
      using wait by (auto simp: sched_inv_def at_start_def at_go_cover_def at_go_def at_end_def)
    then show ?thesis
    proof cases
      case W
      then show ?thesis by blast
    next
      case L
      then have "items_loop (int n) (int (i - b)) i (drop i items) = WgWait # as"
        using wait by (simp add: at_loop_def)
      then have "drop i items = [] \<and> as = []" by (rule loop_wait)
      then show ?thesis using L by blast
    qed
  qed
  then show ?thesis
  proof
    assume "\<exists>b i. at_wait n items b i s"
    then obtain b i where W: "at_wait n items b i s" by blast
    then have r: "running s = []" using wait by (simp add: at_wait_def)
    have "n dvd i"
    proof -
      have "b \<le> i" "i - b = n" "n dvd b" using W by (simp_all add: at_wait_def common_def)
      then have "i = b + n" by simp
      then show ?thesis using \<open>n dvd b\<close> by simp
    qed
    then have "common n i i s'" using W r wait unfolding at_wait_def common_def by auto
    then have "at_loop n items i i s'" using W r wait n by (simp add: at_defs)
    then show ?thesis unfolding sched_inv_def by blast
  next
    assume "\<exists>b i. at_loop n items b i s \<and> drop i items = [] \<and> as = []"
    then obtain b i where L: "at_loop n items b i s" and d: "drop i items = []" and as: "as = []" by blast
    then have r: "running s = []" using wait by (simp add: at_loop_def)
    have "i = length items" using L d by (simp add: at_loop_def)
    then have "at_end items s'" using L r wait as unfolding at_defs common_def by auto
    then show ?thesis unfolding sched_inv_def by blast
  qed
next
  case (task_done xs t ys)
  have ne: "running s \<noteq> []" using task_done by simp
  have len: "int (length (running s)) - 1 = int (length (xs @ ys))" using task_done by simp
  from inv consider (L) b i where "at_loop n items b i s" | (G) b i where "at_go n items b i s"
    | (W) b i where "at_wait n items b i s"
    using ne unfolding sched_inv_def at_start_def at_go_cover_def at_end_def by blast
  then show ?thesis
  proof cases
    case L
    then have "at_loop n items b i s'"
      using task_done common_done[of n b i s xs t ys "wg s - 1"] len by (simp add: at_defs)
    then show ?thesis unfolding sched_inv_def by blast
  next
    case G
    then have "at_go n items b i s'"
      using task_done common_done[of n b i s xs t ys "wg s - 1"] len by (simp add: at_defs)
    then show ?thesis unfolding sched_inv_def by blast
  next
    case W
    then have "at_wait n items b i s'"
      using task_done common_done[of n b i s xs t ys "wg s - 1"] len by (simp add: at_defs)
    then show ?thesis unfolding sched_inv_def by blast
  qed
qed

lemma reachable_inv:
  assumes "0 < n" "threads dl = int n" "step\<^sup>*\<^sup>* (init dl items) s"
  shows "sched_inv n items s"
  using assms(3)
proof (induction rule: rtranclp_induct)
  case base
  show ?case using assms(2) by (rule inv_init)
next
  case (step y z)
  show ?case using assms(1) step.IH step.hyps(2) by (rule inv_step)
qed

lemma earlier_batch_below:
  fixes n b i j k :: nat
  assumes "0 < n" "n dvd b" "j < k" "k - b \<le> n" "i div n < j div n"
  shows "i < b"
proof (rule ccontr)
  assume "\<not> i < b"
  then have "b \<le> i" by simp
  then have "b div n \<le> i div n" by (rule div_le_mono)
  moreover from assms(2) obtain q where q0: "b = n * q" ..
  then have q: "b = q * n" by simp
  moreover have "b div n = q" using q assms(1) by simp
  moreover have "j < Suc q * n" using assms(3,4) q by simp
  then have "j div n < Suc q" using assms(1) by (simp add: less_mult_imp_div_less)
  ultimately show False using assms(5) by simp
qed

lemma common_barrier:
  assumes "0 < n" "common n b k s" "k - b \<le> n"
    and "Worker j \<in> set (running s) \<union> finished s" "i div n < j div n"
  shows "Worker i \<in> finished s \<and> Worker i \<notin> set (running s)"
proof -
  have "j < k" using assms(2,4) unfolding common_def by blast
  moreover have "n dvd b" using assms(2) by (simp add: common_def)
  ultimately have "i < b" using assms(1,3,5) earlier_batch_below by blast
  then show ?thesis using assms(2) unfolding common_def by blast
qed

lemma inv_barrier:
  assumes "0 < n" "sched_inv n items s"
    and "Worker j \<in> set (running s) \<union> finished s" "i < length items" "i div n < j div n"
  shows "Worker i \<in> finished s \<and> Worker i \<notin> set (running s)"
proof -
  from assms(2) consider (L) b k where "at_loop n items b k s" | (G) b k where "at_go n items b k s"
    | (W) b k where "at_wait n items b k s" | (E) "at_end items s"
    using assms(3) unfolding sched_inv_def at_start_def at_go_cover_def by auto
  then show ?thesis
  proof cases
    case L
    then show ?thesis using common_barrier[OF assms(1) _ _ assms(3,5), of b k] by (simp add: at_loop_def)
  next
    case G
    then show ?thesis using common_barrier[OF assms(1) _ _ assms(3,5), of b k] by (simp add: at_go_def)
  next
    case W
    then show ?thesis using common_barrier[OF assms(1) _ _ assms(3,5), of b k] by (simp add: at_wait_def)
  next
    case E
    then show ?thesis using assms(4) by (simp add: at_end_def)
  qed
qed

lemma inv_in_flight:
  assumes "sched_inv n items s"
  shows "length (filter is_worker (running s)) \<le> n"
proof -
  from assms consider (S) "at_start n items s" | (C) "at_go_cover n items s"
    | (L) b k where "at_loop n items b k s" | (G) b k where "at_go n items b k s"
    | (W) b k where "at_wait n items b k s" | (E) "at_end items s"
    unfolding sched_inv_def by blast
  then show ?thesis
  proof cases
    case S then show ?thesis by (simp add: at_start_def)
  next
    case C then show ?thesis by (simp add: at_go_cover_def)
  next
    case L then show ?thesis by (simp add: at_loop_def common_def)
  next
    case G then show ?thesis by (simp add: at_go_def common_def)
  next
    case W then show ?thesis by (simp add: at_wait_def common_def)
  next
    case E then show ?thesis by (simp add: at_end_def)
  qed
qed

text \<open>Single steps between explicit states, for runs written out step by step.\<close>

lemma step_add:
  "w' = w + 1 \<Longrightarrow>
   step \<lparr>pc = WgAdd # as, wg = w, running = r, finished = f\<rparr> \<lparr>pc = as, wg = w', running = r, finished = f\<rparr>"
  using step.add[of "\<lparr>pc = WgAdd # as, wg = w, running = r, finished = f\<rparr>" as] by simp

lemma step_go_cover:
  "step \<lparr>pc = GoCover # as, wg = w, running = r, finished = f\<rparr> \<lparr>pc = as, wg = w, running = Cover # r, finished = f\<rparr>"
  using step.go_cover[of "\<lparr>pc = GoCover # as, wg = w, running = r, finished = f\<rparr>" as] by simp

lemma step_go_worker:
  "step \<lparr>pc = GoWorker i x # as, wg = w, running = r, finished = f\<rparr>
        \<lparr>pc = as, wg = w, running = Worker i # r, finished = f\<rparr>"
  using step.go_worker[of "\<lparr>pc = GoWorker i x # as, wg = w, running = r, finished = f\<rparr>" i x as] by simp

lemma step_wait:
  "step \<lparr>pc = WgWait # as, wg = 0, running = r, finished = f\<rparr> \<lparr>pc = as, wg = 0, running = r, finished = f\<rparr>"
  using step.wait[of "\<lparr>pc = WgWait # as, wg = 0, running = r, finished = f\<rparr>" as] by simp

lemma step_task_done:
  "r = xs @ t # ys \<Longrightarrow> r' = xs @ ys \<Longrightarrow> w' = w - 1 \<Longrightarrow>
   step \<lparr>pc = p, wg = w, running = r, finished = f\<rparr>
        \<lparr>pc = p, wg = w', running = r', finished = insert t f\<rparr>"
  using step.task_done[of "\<lparr>pc = p, wg = w, running = xs @ t # ys, finished = f\<rparr>" xs t ys] by simp

lemma second_batch_reachable:
  "step\<^sup>*\<^sup>* (init one_thread [10, 20 :: nat])
      \<lparr>pc = [WgWait], wg = 1, running = [Worker 1], finished = {Worker 0, Cover}\<rparr>"
proof -
  have 0: "init one_thread [10, 20 :: nat] =
     \<lparr>pc = [WgAdd, GoCover, WgAdd, GoWorker 0 10, WgWait, WgAdd, GoWorker 1 20, WgWait],
      wg = 0, running = [], finished = {}\<rparr>"
    by (simp add: init_def Process_def one_thread_def Let_def)
  have "step\<^sup>*\<^sup>* (init one_thread [10, 20 :: nat]) (init one_thread [10, 20 :: nat])"
    by (rule rtranclp.rtrancl_refl)
  then have "step\<^sup>*\<^sup>* (init one_thread [10, 20 :: nat])
     \<lparr>pc = [GoCover, WgAdd, GoWorker 0 10, WgWait, WgAdd, GoWorker 1 20, WgWait],
      wg = 1, running = [], finished = {}\<rparr>"
    by (rule rtranclp.rtrancl_into_rtrancl) (simp only: 0, rule step_add, simp)
  then have "step\<^sup>*\<^sup>* (init one_thread [10, 20 :: nat])
     \<lparr>pc = [WgAdd, GoWorker 0 10, WgWait, WgAdd, GoWorker 1 20, WgWait],
      wg = 1, running = [Cover], finished = {}\<rparr>"
    by (rule rtranclp.rtrancl_into_rtrancl) (rule step_go_cover)
  then have "step\<^sup>*\<^sup>* (init one_thread [10, 20 :: nat])
     \<lparr>pc = [GoWorker 0 10, WgWait, WgAdd, GoWorker 1 20, WgWait],
      wg = 2, running = [Cover], finished = {}\<rparr>"
    by (rule rtranclp.rtrancl_into_rtrancl) (rule step_add, simp)
  then have "step\<^sup>*\<^sup>* (init one_thread [10, 20 :: nat])
     \<lparr>pc = [WgWait, WgAdd, GoWorker 1 20, WgWait],
      wg = 2, running = [Worker 0, Cover], finished = {}\<rparr>"
    by (rule rtranclp.rtrancl_into_rtrancl) (rule step_go_worker)
  then have "step\<^sup>*\<^sup>* (init one_thread [10, 20 :: nat])
     \<lparr>pc = [WgWait, WgAdd, GoWorker 1 20, WgWait],
      wg = 1, running = [Worker 0], finished = {Cover}\<rparr>"
    by (rule rtranclp.rtrancl_into_rtrancl)
       (rule step_task_done[where xs = "[Worker 0]" and ys = "[]"], simp_all)
  then have "step\<^sup>*\<^sup>* (init one_thread [10, 20 :: nat])
     \<lparr>pc = [WgWait, WgAdd, GoWorker 1 20, WgWait],
      wg = 0, running = [], finished = {Worker 0, Cover}\<rparr>"
    by (rule rtranclp.rtrancl_into_rtrancl)
       (rule step_task_done[where xs = "[]" and ys = "[]"], simp_all)
  then have "step\<^sup>*\<^sup>* (init one_thread [10, 20 :: nat])
     \<lparr>pc = [WgAdd, GoWorker 1 20, WgWait],
      wg = 0, running = [], finished = {Worker 0, Cover}\<rparr>"
    by (rule rtranclp.rtrancl_into_rtrancl) (rule step_wait)
  then have "step\<^sup>*\<^sup>* (init one_thread [10, 20 :: nat])
     \<lparr>pc = [GoWorker 1 20, WgWait],
      wg = 1, running = [], finished = {Worker 0, Cover}\<rparr>"
    by (rule rtranclp.rtrancl_into_rtrancl) (rule step_add, simp)
  then show ?thesis
    by (rule rtranclp.rtrancl_into_rtrancl) (rule step_go_worker)
qed

text \<open>
  Claim C2. In every state of every run of \<open>Process\<close> with limit \<open>T \<ge> 1\<close>: at most \<open>T\<close>
  workers are in flight, and whenever a worker of some batch has been started (item \<open>j\<close>,
  batch \<open>j div T\<close>), every worker of every earlier batch has already executed its
  \<open>Done()\<close> and is no longer in flight.
\<close>

theorem batch_barrier:
  assumes "1 \<le> threads dl" and "step\<^sup>*\<^sup>* (init dl items) s"
  shows "length (filter is_worker (running s)) \<le> nat (threads dl) \<and>
     (\<forall>i j. Worker j \<in> set (running s) \<union> finished s \<and> i < length items \<and>
            i div nat (threads dl) < j div nat (threads dl)
        \<longrightarrow> Worker i \<in> finished s \<and> Worker i \<notin> set (running s))"
proof -
  define n where "n = nat (threads dl)"
  have n: "0 < n" and T: "threads dl = int n" using assms(1) by (simp_all add: n_def)
  have inv: "sched_inv n items s" using n T assms(2) by (rule reachable_inv)
  show ?thesis
    unfolding n_def[symmetric] using inv_in_flight[OF inv] inv_barrier[OF n inv] by blast
qed

theorem batch_barrier_witness:
  "1 \<le> threads one_thread \<and>
   step\<^sup>*\<^sup>* (init one_thread [10, 20 :: nat])
      \<lparr>pc = [WgWait], wg = 1, running = [Worker 1], finished = {Worker 0, Cover}\<rparr> \<and>
   length (filter is_worker (running
      \<lparr>pc = [WgWait :: nat action], wg = 1, running = [Worker 1], finished = {Worker 0, Cover}\<rparr>)) \<le> nat (threads one_thread) \<and>
   Worker 0 \<in> finished \<lparr>pc = [WgWait :: nat action], wg = 1, running = [Worker 1], finished = {Worker 0, Cover}\<rparr>"
proof -
  have h1: "1 \<le> threads one_thread" by (simp add: one_thread_def)
  note h2 = second_batch_reachable
  from batch_barrier[OF h1 h2] show ?thesis using h1 h2 by simp
qed

subsection \<open>Returning from Process\<close>

text \<open>
  With at least one item, \<open>Process\<close> passes a \<open>Wait\<close> after the last worker is started, so
  when the main goroutine has nothing left to execute, the cover task and every worker
  have finished.
\<close>

lemma Process_returns_after_all_tasks:
  assumes "1 \<le> threads dl" and "items \<noteq> []" and "step\<^sup>*\<^sup>* (init dl items) s" and "pc s = []"
  shows "running s = [] \<and> Cover \<in> finished s \<and> (\<forall>j < length items. Worker j \<in> finished s)"
proof -
  define n where "n = nat (threads dl)"
  have n: "0 < n" and T: "threads dl = int n" using assms(1) by (simp_all add: n_def)
  have inv: "sched_inv n items s" using n T assms(3) by (rule reachable_inv)
  then consider (L) b k where "at_loop n items b k s" | (E) "at_end items s"
    using assms(4) unfolding sched_inv_def at_start_def at_go_cover_def at_go_def at_wait_def by auto
  then show ?thesis
  proof cases
    case L
    have pcL: "pc s = items_loop (int n) (int (k - b)) k (drop k items)"
      and kle: "k \<le> length items" and c: "common n b k s"
      using L by (simp_all add: at_loop_def)
    have e: "items_loop (int n) (int (k - b)) k (drop k items) = []"
      using pcL assms(4) by simp
    have "\<not> k < length items"
    proof
      assume "k < length items"
      then show False using e loop_unfold[of k items n b] by simp
    qed
    then have k: "length items \<le> k" by simp
    then have "drop k items = []" by simp
    then have "\<not> 0 < int (k - b)" using e by (simp split: if_splits)
    then have kb: "k \<le> b" by simp
    have "0 < length items" using assms(2) by simp
    then have b: "0 < b" using kb k by linarith
    have no_cover: "Cover \<in> finished s" "Cover \<notin> set (running s)"
      using c b unfolding common_def by blast+
    have lt: "j < k" if "Worker j \<in> set (running s)" for j
      using c that unfolding common_def by blast
    have fin: "Worker j \<in> finished s \<and> Worker j \<notin> set (running s)" if "j < b" for j
      using c that unfolding common_def by blast
    have "t \<notin> set (running s)" for t
    proof (cases t)
      case Cover
      then show ?thesis using no_cover by simp
    next
      case (Worker j)
      show ?thesis
      proof
        assume "t \<in> set (running s)"
        then have "j < b" using lt[of j] kb Worker by simp
        then show False using fin[of j] Worker \<open>t \<in> set (running s)\<close> by simp
      qed
    qed
    then have "running s = []" by (cases "running s") auto
    moreover have "\<forall>j < length items. Worker j \<in> finished s"
    proof (intro allI impI)
      fix j assume "j < length items"
      then have "j < b" using k kb by linarith
      then show "Worker j \<in> finished s" using fin by blast
    qed
    ultimately show ?thesis using no_cover by blast
  next
    case E
    then show ?thesis by (simp add: at_end_def)
  qed
qed

text \<open>
  A limit below 1 behaves as the limit 1: \<open>counter >= dl.threads\<close> holds after every
  item, so every item is followed by a \<open>Wait\<close>.
\<close>

lemma items_loop_limit_below_one:
  "T \<le> 1 \<Longrightarrow> 0 \<le> c \<Longrightarrow> items_loop T c i xs = items_loop 1 c i xs"
proof (induction xs arbitrary: c i)
  case Nil
  show ?case by simp
next
  case (Cons x xs)
  have "items_loop T 0 (Suc i) xs = items_loop 1 0 (Suc i) xs"
    by (rule Cons.IH) (use Cons.prems in simp_all)
  then show ?case using Cons.prems by (simp add: Let_def)
qed

lemma Process_returns_after_all_tasks_any_limit:
  assumes "items \<noteq> []" and "step\<^sup>*\<^sup>* (init dl items) s" and "pc s = []"
  shows "running s = [] \<and> Cover \<in> finished s \<and> (\<forall>j < length items. Worker j \<in> finished s)"
proof (cases "1 \<le> threads dl")
  case True
  then show ?thesis using assms by (rule Process_returns_after_all_tasks)
next
  case False
  then have "items_loop (threads dl) 0 0 items = items_loop 1 0 0 items"
    by (intro items_loop_limit_below_one) simp_all
  then have i: "init dl items = init (dl\<lparr>threads := 1\<rparr>) items"
    by (simp add: init_def Process_def)
  have "1 \<le> threads (dl\<lparr>threads := 1\<rparr>)" by simp
  then show ?thesis using assms(1) assms(2)[unfolded i] assms(3)
    by (rule Process_returns_after_all_tasks)
qed

text \<open>
  Claim C3. The cover task is started before the loop and is not counted in \<open>counter\<close>;
  \<open>Process\<close> is to return only after the cover task has finished, for every item count.
  With no items the loop body never runs and \<open>counter > 0\<close> is false, so \<open>Process\<close>
  executes \<open>Add(1)\<close> and \<open>go\<close> for the cover and no \<open>Wait\<close> at all: there is a run in
  which \<open>Process\<close> has returned while the cover task is still in flight and the wait group
  counter is 1.
\<close>

theorem Process_empty_feed_returns_before_cover:
  "Process dl ([] :: 'a list) = [WgAdd, GoCover] \<and>
   step\<^sup>*\<^sup>* (init dl ([] :: 'a list)) \<lparr>pc = [], wg = 1, running = [Cover], finished = {}\<rparr>"
proof -
  have p: "Process dl ([] :: 'a list) = [WgAdd, GoCover]" by (simp add: Process_def)
  have i: "init dl ([] :: 'a list) = \<lparr>pc = [WgAdd, GoCover], wg = 0, running = [], finished = {}\<rparr>"
    by (simp add: init_def p)
  have "step\<^sup>*\<^sup>* (init dl ([] :: 'a list)) (init dl [])" by (rule rtranclp.rtrancl_refl)
  then have "step\<^sup>*\<^sup>* (init dl ([] :: 'a list)) \<lparr>pc = [GoCover], wg = 1, running = [], finished = {}\<rparr>"
    by (rule rtranclp.rtrancl_into_rtrancl) (simp add: i step_add)
  then have "step\<^sup>*\<^sup>* (init dl ([] :: 'a list)) \<lparr>pc = [], wg = 1, running = [Cover], finished = {}\<rparr>"
    by (rule rtranclp.rtrancl_into_rtrancl) (rule step_go_cover)
  with p show ?thesis by (rule conjI)
qed

subsection \<open>parseTitle\<close>

text \<open>The pattern on the titles of the specification's examples.\<close>

lemma FindStringSubmatch_episode_12:
  "FindStringSubmatch (str ''Episode 12. Something Great'')
     = [str ''Episode 12. Something Great'', str ''12'', str ''Something Great'']"
  by code_simp

lemma FindStringSubmatch_no_match: "FindStringSubmatch (str ''NoMatchHere'') = []"
  by code_simp

lemma FindStringSubmatch_episode_5: "FindStringSubmatch (str ''Episode 5.'') = [str ''Episode 5.'', str ''5'', []]"
  by code_simp

lemma FindStringSubmatch_slash: "FindStringSubmatch (str ''A/B'') = []"
  by code_simp

lemma parseTitle_vector_1:
  "parseTitle (of_char CHR ''/'') \<lparr>Title = str ''Episode 12. Something Great'', Published = p,
      Author_Name = a, Enclosures = es\<rparr> = (str ''12'', str ''Something Great'')"
  by (simp add: parseTitle_def FindStringSubmatch_episode_12 strings_Replace_def) (simp add: str_def)

lemma parseTitle_vector_2:
  "parseTitle PS \<lparr>Title = str ''NoMatchHere'', Published = p, Author_Name = a, Enclosures = es\<rparr>
     = ([], str ''NoMatchHere'')"
  by (simp add: parseTitle_def FindStringSubmatch_no_match)

lemma parseTitle_vector_3:
  "parseTitle (of_char CHR ''/'') \<lparr>Title = str ''Episode 5.'', Published = p,
      Author_Name = str ''Jane Doe'', Enclosures = es\<rparr> = (str ''5'', str ''Jane Doe'')"
  by (simp add: parseTitle_def FindStringSubmatch_episode_5 strings_Replace_def) (simp add: str_def)

lemma parseTitle_vector_4:
  "parseTitle (of_char CHR ''/'') \<lparr>Title = str ''Episode 7. A/B'', Published = p,
      Author_Name = a, Enclosures = es\<rparr> = (str ''7'', str ''A_B'')"
proof -
  have "FindStringSubmatch (str ''Episode 7. A/B'') = [str ''Episode 7. A/B'', str ''7'', str ''A/B'']"
    by code_simp
  then show ?thesis
    by (simp add: parseTitle_def strings_Replace_def) (simp add: str_def)
qed

lemma strings_Replace_removes:
  "old \<notin> set new \<Longrightarrow> old \<notin> set (strings_Replace s old new)"
  by (induction s) (auto simp: strings_Replace_def)

lemma parseTitle_matched_sanitised:
  assumes "FindStringSubmatch (Title it) \<noteq> []" and "PS \<noteq> of_char CHR ''_''"
  shows "PS \<notin> set (snd (parseTitle PS it))"
  using assms by (simp add: parseTitle_def Let_def strings_Replace_removes str_def)

text \<open>
  Claim C8. The three parsing vectors hold (\<open>parseTitle_vector_1\<close>, \<open>_2\<close>, \<open>_3\<close>), and
  a title that matches the pattern has every path separator replaced
  (\<open>parseTitle_matched_sanitised\<close>, \<open>parseTitle_vector_4\<close>). A title that does not match
  is returned by the early \<open>return "", item.Title\<close> before the replacement: the title
  \<open>A/B\<close> comes back as \<open>A/B\<close>, separator included.
\<close>

theorem parseTitle_unmatched_keeps_separator:
  "parseTitle (of_char CHR ''/'') \<lparr>Title = str ''A/B'', Published = p, Author_Name = a, Enclosures = es\<rparr>
     = ([], str ''A/B'') \<and>
   of_char CHR ''/'' \<in> set (snd (parseTitle (of_char CHR ''/'')
       \<lparr>Title = str ''A/B'', Published = p, Author_Name = a, Enclosures = es\<rparr>))"
  by (simp add: parseTitle_def FindStringSubmatch_slash) (simp add: str_def)

subsection \<open>downloadFile\<close>

lemma downloadFile_cases:
  "(\<exists>e effs. downloadFile dl io url dest = (Some e, dl, effs) \<and>
       (create_err io = Some e \<or> get_err io = Some e \<or> copy_err io = Some e)) \<or>
   (\<exists>effs. downloadFile dl io url dest = (None, dl\<lparr>statDl := statDl dl + 1\<rparr>, effs) \<and>
       create_err io = None \<and> get_err io = None \<and> copy_err io = None)"
  by (auto simp: downloadFile_def split: option.splits)

lemma downloadFile_logs:
  "downloadFile dl io url dest = (err, dl1, effs) \<Longrightarrow> LogPrintln e \<in> set effs \<Longrightarrow>
     Some e = body_close_err io \<or> Some e = fh_close_err io"
  by (auto simp: downloadFile_def close_fh_def close_body_def split: option.splits)

lemma downloadFile_no_tag: "downloadFile dl io url dest = (err, dl1, effs) \<Longrightarrow> SetYear y \<notin> set effs"
  by (auto simp: downloadFile_def close_fh_def close_body_def split: option.splits)

text \<open>
  Claim C7. \<open>downloadFile\<close> returns an error exactly when creating the file, the request
  or the copy fails. On success the download counter is one more and nothing else of the
  struct changes; on failure the struct is unchanged. The errors of the two deferred
  closes change neither the returned error nor the struct; each is logged when its close
  runs.
\<close>

theorem downloadFile_result:
  "case downloadFile dl io url dest of
     (err, dl', effs) \<Rightarrow>
       (err \<noteq> None) = (create_err io \<noteq> None \<or> get_err io \<noteq> None \<or> copy_err io \<noteq> None) \<and>
       (err = None \<longrightarrow> dl' = dl\<lparr>statDl := statDl dl + 1\<rparr>) \<and>
       (err \<noteq> None \<longrightarrow> dl' = dl) \<and>
       (\<forall>x y. fst (downloadFile dl (io\<lparr>body_close_err := x, fh_close_err := y\<rparr>) url dest) = err \<and>
              fst (snd (downloadFile dl (io\<lparr>body_close_err := x, fh_close_err := y\<rparr>) url dest)) = dl') \<and>
       (\<forall>e. create_err io = None \<and> fh_close_err io = Some e \<longrightarrow> LogPrintln e \<in> set effs) \<and>
       (\<forall>e. create_err io = None \<and> get_err io = None \<and> body_close_err io = Some e
            \<longrightarrow> LogPrintln e \<in> set effs)"
  by (auto simp: downloadFile_def close_fh_def close_body_def split: option.splits)

theorem downloadFile_result_witness:
  "fst (downloadFile dl0 (io_ok\<lparr>fh_close_err := Some (Error (str ''close''))\<rparr>) (str ''u'') (str ''d'')) = None \<and>
   statDl (fst (snd (downloadFile dl0 (io_ok\<lparr>fh_close_err := Some (Error (str ''close''))\<rparr>) (str ''u'') (str ''d'')))) = 1 \<and>
   fst (downloadFile dl0 (io_ok\<lparr>copy_err := Some (Error (str ''copy''))\<rparr>) (str ''u'') (str ''d''))
      = Some (Error (str ''copy'')) \<and>
   statDl (fst (snd (downloadFile dl0 (io_ok\<lparr>copy_err := Some (Error (str ''copy''))\<rparr>) (str ''u'') (str ''d'')))) = 0"
  using downloadFile_result [where dl = dl0 and io = "io_ok\<lparr>fh_close_err := Some (Error (str ''close''))\<rparr>"
      and url = "str ''u''" and dest = "str ''d''"]
    downloadFile_result [where dl = dl0 and io = "io_ok\<lparr>copy_err := Some (Error (str ''copy''))\<rparr>"
      and url = "str ''u''" and dest = "str ''d''"]
  by (simp add: downloadFile_def io_ok_def dl0_def NewGlsdl_def)

subsection \<open>The paths through worker\<close>

lemma worker_file_exists:
  assumes "Enclosures it = enc # rest" "Length enc \<noteq> []" "\<not> stat_not_exist io"
  shows "worker PS rfc dl io it =
     (case open_err io of
        Some e \<Rightarrow> Inr (dl\<lparr>statFail := statFail dl + 1\<rparr>,
                    [OsStat (filename_of PS dl it), Id3Open (filename_of PS dl it), LogPrintln e])
      | None \<Rightarrow> Inr (dl\<lparr>statProcess := statProcess dl + 1\<rparr>,
                    [OsStat (filename_of PS dl it), Id3Open (filename_of PS dl it)] @
                    tag_effects PS rfc it [str ''id3'']))"
  using assms
  by (simp add: worker_def Let_def case_prod_beta filename_of_def finalTitle_of_def tag_effects_def
           split: option.splits)

lemma worker_download_failed:
  assumes "Enclosures it = enc # rest" "Length enc \<noteq> []" "stat_not_exist io"
    and "downloadFile dl io (URL enc) (filename_of PS dl it) = (Some e, dl1, effs)"
  shows "worker PS rfc dl io it =
           Inr (dl1\<lparr>statFail := statFail dl1 + 1\<rparr>, OsStat (filename_of PS dl it) # effs @ [LogPrintln e])"
  using assms
  by (simp add: worker_def Let_def case_prod_beta filename_of_def)

lemma worker_downloaded:
  assumes "Enclosures it = enc # rest" "Length enc \<noteq> []" "stat_not_exist io"
    and "downloadFile dl io (URL enc) (filename_of PS dl it) = (None, dl1, effs)"
  shows "worker PS rfc dl io it =
     (case open_err io of
        Some e \<Rightarrow> Inr (dl1\<lparr>statFail := statFail dl1 + 1\<rparr>,
                    OsStat (filename_of PS dl it) # effs @ [Id3Open (filename_of PS dl it), LogPrintln e])
      | None \<Rightarrow> Inr (dl1\<lparr>statProcess := statProcess dl1 + 1\<rparr>,
                    OsStat (filename_of PS dl it) # effs @ [Id3Open (filename_of PS dl it)] @
                    tag_effects PS rfc it [str ''dl'', str ''id3'']))"
  using assms
  by (simp add: worker_def Let_def case_prod_beta filename_of_def finalTitle_of_def tag_effects_def
           split: option.splits)

lemma worker_skipped:
  assumes "Enclosures it = enc # rest" "Length enc = []"
  shows "worker PS rfc dl io it = Inr (dl, [])"
  using assms by (simp add: worker_def)

lemma digits_1: "Itoa 1 = str ''1''"
  by (simp add: Itoa_def digits.simps str_def)

lemma tag_effects_set:
  "set (tag_effects PS rfc it opts) \<subseteq> {e. \<not> is_download e}"
  by (simp add: tag_effects_def)

lemma FindStringSubmatch_ep1:
  "FindStringSubmatch (str ''Episode 1. Intro'') = [str ''Episode 1. Intro'', str ''1'', str ''Intro'']"
  by code_simp

lemma parseTitle_ep1: "parseTitle slash ep1 = (str ''1'', str ''Intro'')"
  by (simp add: parseTitle_def ep1_def FindStringSubmatch_ep1 strings_Replace_def slash_def)
     (simp add: str_def)

lemma filename_ep1: "filename_of slash dl0 ep1 = str ''/home/u/Music/Podcast/GolangShow/1 - Intro.mp3''"
  by (simp add: filename_of_def parseTitle_ep1 dl0_def NewGlsdl_def) (simp add: str_def slash_def)

lemma ep1_enclosures: "Enclosures ep1 = enc1 # []"
  by (simp add: ep1_def enc1_def)

lemma enc1_length: "Length enc1 \<noteq> []"
  by (simp add: enc1_def str_def)

text \<open>
  Claim C9. The worker reads \<open>item.Enclosures[0]\<close> first: it panics exactly for the items
  with no enclosure, whatever the other fields and the outcomes of the calls are, and
  returns for every other item.
\<close>

theorem worker_panics_iff_no_enclosure:
  "(worker PS rfc dl io it = Inl IndexOutOfRange) = (Enclosures it = []) \<and>
   (\<exists>r. worker PS rfc dl io it = Inr r) = (Enclosures it \<noteq> [])"
  by (auto simp: worker_def Let_def split: list.splits option.splits prod.splits if_splits)

theorem worker_panics_iff_no_enclosure_witness:
  "worker slash no_rfc dl0 io_ok (ep1\<lparr>Enclosures := []\<rparr>) = Inl IndexOutOfRange \<and>
   worker slash no_rfc dl0 io_ok ep1 \<noteq> Inl IndexOutOfRange"
  using worker_panics_iff_no_enclosure[of slash no_rfc dl0 io_ok "ep1\<lparr>Enclosures := []\<rparr>"]
    worker_panics_iff_no_enclosure[of slash no_rfc dl0 io_ok ep1]
  by (simp add: ep1_def)

text \<open>
  Claim C5. For an item the worker processes (its first enclosure has a non-empty
  length) whose file exists (\<open>os.Stat\<close> does not report "not exist"): the worker performs no
  download effect and leaves the download counter as it is, and it still calls
  \<open>id3.Open\<close> on the file; when the file opens, all five tags are set, the tag is closed
  and the item counts as processed.
\<close>

theorem worker_existing_file_retagged:
  assumes "Enclosures it = enc # rest" "Length enc \<noteq> []" "\<not> stat_not_exist io"
  shows "\<exists>dl' effs. worker PS rfc dl io it = Inr (dl', effs) \<and>
           statDl dl' = statDl dl \<and>
           (\<forall>e \<in> set effs. \<not> is_download e) \<and>
           take 2 effs = [OsStat (filename_of PS dl it), Id3Open (filename_of PS dl it)] \<and>
           (open_err io = None \<longrightarrow>
              drop 2 effs = tag_effects PS rfc it [str ''id3''] \<and>
              statProcess dl' = statProcess dl + 1 \<and> statFail dl' = statFail dl)"
proof (cases "open_err io")
  case None
  then show ?thesis using worker_file_exists[OF assms, of PS rfc dl] tag_effects_set[of PS rfc it "[str ''id3'']"]
    by auto
next
  case (Some e)
  then show ?thesis using worker_file_exists[OF assms, of PS rfc dl] by simp
qed

theorem worker_existing_file_retagged_witness:
  "Enclosures ep1 = enc1 # [] \<and> Length enc1 \<noteq> [] \<and> \<not> stat_not_exist io_exists \<and>
   (\<exists>dl' effs. worker slash no_rfc dl0 io_exists ep1 = Inr (dl', effs) \<and>
      statDl dl' = statDl dl0 \<and> list_all (\<lambda>e. \<not> is_download e) effs \<and>
      take 2 effs = [OsStat (str ''/home/u/Music/Podcast/GolangShow/1 - Intro.mp3''),
                     Id3Open (str ''/home/u/Music/Podcast/GolangShow/1 - Intro.mp3'')] \<and>
      drop 2 effs = tag_effects slash no_rfc ep1 [str ''id3''] \<and>
      statProcess dl' = statProcess dl0 + 1)"
proof -
  have s: "\<not> stat_not_exist io_exists" by (simp add: io_exists_def io_ok_def)
  have o: "open_err io_exists = None" by (simp add: io_exists_def io_ok_def)
  from worker_existing_file_retagged[OF ep1_enclosures enc1_length s, of slash no_rfc dl0]
  obtain dl' effs where "worker slash no_rfc dl0 io_exists ep1 = Inr (dl', effs)"
    "statDl dl' = statDl dl0" "list_all (\<lambda>e. \<not> is_download e) effs"
    "take 2 effs = [OsStat (str ''/home/u/Music/Podcast/GolangShow/1 - Intro.mp3''),
                     Id3Open (str ''/home/u/Music/Podcast/GolangShow/1 - Intro.mp3'')]"
    "drop 2 effs = tag_effects slash no_rfc ep1 [str ''id3'']"
    "statProcess dl' = statProcess dl0 + 1"
    using o by (auto simp: filename_ep1 list_all_iff)
  then show ?thesis using ep1_enclosures enc1_length s by blast
qed

text \<open>
  Claim C6, as stated, fails for the error of \<open>tag.Close()\<close>, the call that writes the
  tags: the worker assigns it to \<open>_\<close>. With that error the item counts as processed, the
  failure counter stays 0 and nothing is logged.
\<close>

theorem worker_tag_close_error_ignored:
  "worker slash no_rfc dl0 (io_exists\<lparr>tag_close_err := Some (Error (str ''write failed''))\<rparr>) ep1 =
     Inr (dl0\<lparr>statProcess := 1\<rparr>,
          [OsStat (str ''/home/u/Music/Podcast/GolangShow/1 - Intro.mp3''),
           Id3Open (str ''/home/u/Music/Podcast/GolangShow/1 - Intro.mp3''),
           SetTitle (str ''[1] Intro''),
           SetArtist (str ''Ann''),
           SetAlbum (str ''GolangShow''),
           SetGenre (str ''Technology''),
           SetYear (str ''1''),
           FmtPrintln (str ''* [1] Intro [id3]''),
           TagClose]) \<and>
   statFail (dl0\<lparr>statProcess := 1\<rparr>) = 0 \<and>
   tag_close_err (io_exists\<lparr>tag_close_err := Some (Error (str ''write failed''))\<rparr>)
     = Some (Error (str ''write failed''))"
proof -
  have s: "\<not> stat_not_exist (io_exists\<lparr>tag_close_err := Some (Error (str ''write failed''))\<rparr>)"
    by (simp add: io_exists_def io_ok_def)
  have o: "open_err (io_exists\<lparr>tag_close_err := Some (Error (str ''write failed''))\<rparr>) = None"
    by (simp add: io_exists_def io_ok_def)
  have t: "tag_effects slash no_rfc ep1 [str ''id3''] =
     [SetTitle (str ''[1] Intro''), SetArtist (str ''Ann''), SetAlbum (str ''GolangShow''),
      SetGenre (str ''Technology''), SetYear (str ''1''), FmtPrintln (str ''* [1] Intro [id3]''), TagClose]"
    by (simp add: tag_effects_def finalTitle_of_def parseTitle_ep1 time_Parse_def no_rfc_def
          zero_time_def digits_1) (simp add: str_def ep1_def enc1_def)
  have c: "statProcess dl0 = 0" "statFail dl0 = 0" by (simp_all add: dl0_def NewGlsdl_def)
  show ?thesis
    using worker_file_exists[OF ep1_enclosures enc1_length s, of slash no_rfc dl0]
    by (simp add: o t filename_ep1 c)
qed

text \<open>
  Claim C6, amended. The worker of an item with an enclosure of non-empty length always
  returns, with no error value, and the run goes on with the next job from the struct it
  leaves. When the download fails, it logs that error last, adds one to the failure
  counter and changes nothing else. When \<open>id3.Open\<close> fails, it logs that error last
  and adds one to the failure counter, not to the processed counter. The error of
  \<open>tag.Close()\<close> changes neither the result nor the trace.
\<close>

theorem worker_failure_logged_counted:
  assumes "Enclosures it = enc # rest" "Length enc \<noteq> []"
  shows "\<exists>dl' effs. worker PS rfc dl io it = Inr (dl', effs) \<and>
      run_workers PS rfc dl ((it, io) # jobs) = run_workers PS rfc dl' jobs \<and>
      worker PS rfc dl (io\<lparr>tag_close_err := x\<rparr>) it = Inr (dl', effs) \<and>
      (\<forall>e. stat_not_exist io \<and> fst (downloadFile dl io (URL enc) (filename_of PS dl it)) = Some e \<longrightarrow>
           dl' = dl\<lparr>statFail := statFail dl + 1\<rparr> \<and> last effs = LogPrintln e) \<and>
      (\<forall>e. (stat_not_exist io \<longrightarrow> fst (downloadFile dl io (URL enc) (filename_of PS dl it)) = None) \<and>
            open_err io = Some e \<longrightarrow>
           statFail dl' = statFail dl + 1 \<and> statProcess dl' = statProcess dl \<and> last effs = LogPrintln e)"
proof -
  have "downloadFile dl (io\<lparr>tag_close_err := x\<rparr>) u d = downloadFile dl io u d" for u d
    by (simp add: downloadFile_def close_fh_def close_body_def split: option.splits)
  then have x: "worker PS rfc dl (io\<lparr>tag_close_err := x\<rparr>) it = worker PS rfc dl io it"
    by (simp add: worker_def Let_def case_prod_beta split: list.splits option.splits)
  show ?thesis
  proof (cases "stat_not_exist io")
    case False
    show ?thesis
      using worker_file_exists[OF assms False, of PS rfc dl] False x
      by (cases "open_err io") auto
  next
    case True
    from downloadFile_cases[of dl io "URL enc" "filename_of PS dl it"]
    consider (failed) e effs where "downloadFile dl io (URL enc) (filename_of PS dl it) = (Some e, dl, effs)"
      | (ok) effs where "downloadFile dl io (URL enc) (filename_of PS dl it)
                  = (None, dl\<lparr>statDl := statDl dl + 1\<rparr>, effs)"
      by blast
    then show ?thesis
    proof cases
      case failed
      show ?thesis
        using worker_download_failed[OF assms True failed, of rfc] True x failed by auto
    next
      case ok
      show ?thesis
        using worker_downloaded[OF assms True ok, of rfc] True x ok
        by (cases "open_err io") (auto simp: tag_effects_def)
    qed
  qed
qed

theorem worker_failure_logged_counted_witness:
  "Enclosures ep1 = enc1 # [] \<and> Length enc1 \<noteq> [] \<and>
   \<not> stat_not_exist (io_exists\<lparr>open_err := Some (Error (str ''not an mp3''))\<rparr>) \<and>
   open_err (io_exists\<lparr>open_err := Some (Error (str ''not an mp3''))\<rparr>) = Some (Error (str ''not an mp3'')) \<and>
   (\<exists>dl' effs. worker slash no_rfc dl0 (io_exists\<lparr>open_err := Some (Error (str ''not an mp3''))\<rparr>) ep1
        = Inr (dl', effs) \<and>
      statFail dl' = statFail dl0 + 1 \<and> statProcess dl' = statProcess dl0 \<and>
      last effs = LogPrintln (Error (str ''not an mp3'')))"
proof -
  have s: "\<not> stat_not_exist (io_exists\<lparr>open_err := Some (Error (str ''not an mp3''))\<rparr>)"
    by (simp add: io_exists_def io_ok_def)
  have o: "open_err (io_exists\<lparr>open_err := Some (Error (str ''not an mp3''))\<rparr>)
      = Some (Error (str ''not an mp3''))" by simp
  from worker_failure_logged_counted[OF ep1_enclosures enc1_length, of slash no_rfc dl0
      "io_exists\<lparr>open_err := Some (Error (str ''not an mp3''))\<rparr>" "[]" None]
  obtain dl' effs where
    "worker slash no_rfc dl0 (io_exists\<lparr>open_err := Some (Error (str ''not an mp3''))\<rparr>) ep1 = Inr (dl', effs)"
    "statFail dl' = statFail dl0 + 1" "statProcess dl' = statProcess dl0"
    "last effs = LogPrintln (Error (str ''not an mp3''))"
    using s o by blast
  then show ?thesis using ep1_enclosures enc1_length s o by blast
qed

text \<open>
  Claim C10. When the publish timestamp is not in the layout, the worker of a processed
  item whose file is there (already, or after a download that succeeds) and opens still
  tags it: the only year it sets is \<open>"1"\<close>, the item counts as processed and not as
  failed, and nothing about the timestamp is logged (the only log lines possible are
  the close errors of the download).
\<close>

theorem worker_bad_timestamp_year_1:
  assumes "Enclosures it = enc # rest" "Length enc \<noteq> []" "rfc (Published it) = None"
    and "open_err io = None"
    and "stat_not_exist io \<longrightarrow> create_err io = None \<and> get_err io = None \<and> copy_err io = None"
  shows "\<exists>dl' effs. worker PS rfc dl io it = Inr (dl', effs) \<and>
           SetYear (str ''1'') \<in> set effs \<and>
           (\<forall>y. SetYear y \<in> set effs \<longrightarrow> y = str ''1'') \<and>
           statProcess dl' = statProcess dl + 1 \<and> statFail dl' = statFail dl \<and>
           (\<forall>e. LogPrintln e \<in> set effs \<longrightarrow> Some e = body_close_err io \<or> Some e = fh_close_err io)"
proof -
  have y: "Itoa (Year (fst (time_Parse rfc (Published it)))) = str ''1''"
    using assms(3) by (simp add: time_Parse_def zero_time_def digits_1)
  show ?thesis
  proof (cases "stat_not_exist io")
    case False
    show ?thesis
      using worker_file_exists[OF assms(1,2) False, of PS rfc dl] assms(4) y
      by (simp add: tag_effects_def)
  next
    case True
    then obtain effs where d: "downloadFile dl io (URL enc) (filename_of PS dl it)
        = (None, dl\<lparr>statDl := statDl dl + 1\<rparr>, effs)"
      using downloadFile_cases[of dl io "URL enc" "filename_of PS dl it"] assms(5) by auto
    show ?thesis
      using worker_downloaded[OF assms(1,2) True d, of rfc] assms(4) y
        downloadFile_logs[OF d] downloadFile_no_tag[OF d]
      by (auto simp: tag_effects_def)
  qed
qed

theorem worker_bad_timestamp_year_1_witness:
  "Enclosures ep1 = enc1 # [] \<and> Length enc1 \<noteq> [] \<and> no_rfc (Published ep1) = None \<and>
   open_err io_ok = None \<and> stat_not_exist io_ok \<and>
   create_err io_ok = None \<and> get_err io_ok = None \<and> copy_err io_ok = None \<and>
   (\<exists>dl' effs. worker slash no_rfc dl0 io_ok ep1 = Inr (dl', effs) \<and>
      SetYear (str ''1'') \<in> set effs \<and>
      statProcess dl' = statProcess dl0 + 1 \<and> statFail dl' = statFail dl0)"
proof -
  have a: "no_rfc (Published ep1) = None" by (simp add: no_rfc_def)
  have b: "open_err io_ok = None" by (simp add: io_ok_def)
  have c: "stat_not_exist io_ok \<longrightarrow> create_err io_ok = None \<and> get_err io_ok = None \<and> copy_err io_ok = None"
    by (simp add: io_ok_def)
  from worker_bad_timestamp_year_1[where rfc = no_rfc and it = ep1 and io = io_ok and PS = slash
      and dl = dl0, OF ep1_enclosures enc1_length a b c]
  obtain dl' effs where "worker slash no_rfc dl0 io_ok ep1 = Inr (dl', effs)"
    "SetYear (str ''1'') \<in> set effs" "statProcess dl' = statProcess dl0 + 1" "statFail dl' = statFail dl0"
    by blast
  moreover have "stat_not_exist io_ok" "create_err io_ok = None" "get_err io_ok = None" "copy_err io_ok = None"
    by (simp_all add: io_ok_def)
  ultimately show ?thesis using ep1_enclosures enc1_length a b by blast
qed

subsection \<open>The counters of a run\<close>

lemma worker_counts:
  assumes "worker PS rfc dl io it = Inr (dl', effs)"
  shows "statProcess dl' + statFail dl' = statProcess dl + statFail dl + (if empty_length it then 0 else 1) \<and>
         statDl dl \<le> statDl dl' \<and>
         statDl dl' - statDl dl \<le> (if empty_length it then 0 else 1)"
proof (cases "Enclosures it")
  case Nil
  then show ?thesis using assms by (simp add: worker_def)
next
  case (Cons enc rest)
  show ?thesis
  proof (cases "Length enc = []")
    case True
    then show ?thesis using assms worker_skipped[OF Cons True, of PS rfc dl io]
      by (simp add: empty_length_def Cons)
  next
    case False
    then have ne: "\<not> empty_length it" by (simp add: empty_length_def Cons)
    show ?thesis
    proof (cases "stat_not_exist io")
      case ex: False
      show ?thesis using worker_file_exists[OF Cons False ex, of PS rfc dl] assms ne
        by (cases "open_err io") auto
    next
      case True
      from downloadFile_cases[of dl io "URL enc" "filename_of PS dl it"]
      consider (failed) e effs where "downloadFile dl io (URL enc) (filename_of PS dl it) = (Some e, dl, effs)"
        | (ok) effs where "downloadFile dl io (URL enc) (filename_of PS dl it)
                    = (None, dl\<lparr>statDl := statDl dl + 1\<rparr>, effs)"
        by blast
      then show ?thesis
      proof cases
        case failed
        show ?thesis using worker_download_failed[OF Cons False True failed, of rfc] assms ne by auto
      next
        case ok
        show ?thesis using worker_downloaded[OF Cons False True ok, of rfc] assms ne
          by (cases "open_err io") auto
      qed
    qed
  qed
qed

lemma run_workers_counts:
  assumes "run_workers PS rfc dl jobs = Inr dl'"
  shows "statProcess dl' + statFail dl' =
           statProcess dl + statFail dl + int (length jobs) - int (count_empty jobs) \<and>
         statDl dl \<le> statDl dl' \<and>
         statDl dl' - statDl dl \<le> int (length jobs) - int (count_empty jobs)"
  using assms
proof (induction jobs arbitrary: dl)
  case Nil
  then show ?case by (simp add: count_empty_def)
next
  case (Cons j jobs)
  obtain it io where j: "j = (it, io)" by (cases j)
  from Cons.prems obtain dl1 effs where w: "worker PS rfc dl io it = Inr (dl1, effs)"
    and r: "run_workers PS rfc dl1 jobs = Inr dl'"
    by (auto simp: j split: sum.splits)
  have c: "count_empty (j # jobs) = (if empty_length it then 1 else 0) + count_empty jobs"
    by (simp add: count_empty_def j)
  show ?case using worker_counts[OF w] Cons.IH[OF r] c by (auto split: if_splits)
qed

lemma cover_task_counts:
  assumes "cover_task PS dl io url = (dl', effs)"
  shows "statProcess dl' = statProcess dl + 1 \<and> statFail dl' = statFail dl \<and>
         statDl dl \<le> statDl dl' \<and> statDl dl' \<le> statDl dl + 1"
  using assms downloadFile_cases[of dl io url "downloadDir dl @ [PS] @ str ''cover.png''"]
  by (auto simp: cover_task_def Let_def)

lemma Process_counters_example:
  "Process_counters slash no_rfc dl0 io_ok (str ''http://x/cover.png'') progress [(ep1, io_bad_tag)]
     = Inr (dl0\<lparr>statDl := 2, statProcess := 1, statFail := 1\<rparr>)"
proof -
  have c: "cover_task slash dl0 io_ok (str ''http://x/cover.png'')
            = (dl0\<lparr>statDl := 1, statProcess := 1\<rparr>,
               [OsCreate (downloadDir dl0 @ [slash] @ str ''cover.png''), HttpGet (str ''http://x/cover.png''),
                IoCopy, BodyClose, FileClose, FmtPrintln (str ''* cover file'')])"
    by (simp add: cover_task_def downloadFile_def io_ok_def close_fh_def close_body_def dl0_def NewGlsdl_def)
  have d: "downloadFile (dl0\<lparr>statDl := 1, statProcess := 1\<rparr>) io_bad_tag (URL enc1)
             (filename_of slash (dl0\<lparr>statDl := 1, statProcess := 1\<rparr>) ep1)
           = (None, dl0\<lparr>statDl := 2, statProcess := 1\<rparr>,
              [OsCreate (filename_of slash (dl0\<lparr>statDl := 1, statProcess := 1\<rparr>) ep1), HttpGet (URL enc1),
               IoCopy, BodyClose, FileClose])"
    by (simp add: downloadFile_def io_bad_tag_def io_ok_def close_fh_def close_body_def dl0_def NewGlsdl_def)
  have s: "stat_not_exist io_bad_tag" by (simp add: io_bad_tag_def io_ok_def)
  have w: "worker slash no_rfc (dl0\<lparr>statDl := 1, statProcess := 1\<rparr>) io_bad_tag ep1
            = Inr (dl0\<lparr>statDl := 2, statProcess := 1, statFail := 1\<rparr>,
                OsStat (filename_of slash (dl0\<lparr>statDl := 1, statProcess := 1\<rparr>) ep1) #
                [OsCreate (filename_of slash (dl0\<lparr>statDl := 1, statProcess := 1\<rparr>) ep1), HttpGet (URL enc1),
                 IoCopy, BodyClose, FileClose] @
                [Id3Open (filename_of slash (dl0\<lparr>statDl := 1, statProcess := 1\<rparr>) ep1),
                 LogPrintln (Error (str ''not an mp3''))])"
    using worker_downloaded[OF ep1_enclosures enc1_length s d, of no_rfc]
    by (simp add: io_bad_tag_def io_ok_def dl0_def NewGlsdl_def)
  show ?thesis by (simp add: Process_counters_def c w)
qed

text \<open>
  Claim C4, as stated, fails: the cover task adds one to the processed counter, and a
  file that is downloaded and then fails to open counts as downloaded and as failed. A
  run over one item (\<open>K = 1\<close>, \<open>M = 0\<close>) whose download succeeds and whose tag does not
  open ends with downloaded 2, processed 1, failed 1.
\<close>

theorem Process_counters_cover_and_tag_failure:
  "Process_counters slash no_rfc dl0 io_ok (str ''http://x/cover.png'') CoverFinished [(ep1, io_bad_tag)]
     = Inr (dl0\<lparr>statDl := 2, statProcess := 1, statFail := 1\<rparr>) \<and>
   statProcess (dl0\<lparr>statDl := 2, statProcess := 1, statFail := 1\<rparr>)
     + statFail (dl0\<lparr>statDl := 2, statProcess := 1, statFail := 1\<rparr>)
     \<noteq> int (length [(ep1, io_bad_tag)]) - int (count_empty [(ep1, io_bad_tag)]) \<and>
   \<not> statDl (dl0\<lparr>statDl := 2, statProcess := 1, statFail := 1\<rparr>)
       \<le> statProcess (dl0\<lparr>statDl := 2, statProcess := 1, statFail := 1\<rparr>)"
  by (simp add: Process_counters_example count_empty_def empty_length_def ep1_enclosures enc1_length)

text \<open>
  With no items the counters at the return of \<open>Process\<close> depend on how far the cover
  task has got: when it has not run yet, they are the counters \<open>Process\<close> started with.
\<close>

lemma Process_counters_empty_feed:
  "Process_counters PS rfc dl cover_io url CoverPending [] = Inr dl \<and>
   Process_counters PS rfc dl cover_io url CoverFinished [] = Inr (fst (cover_task PS dl cover_io url))"
  by (simp add: Process_counters_def cover_at_return_def)

text \<open>
  Claim C4, amended. After a run from a fresh struct over \<open>K \<ge> 1\<close> items of which \<open>M\<close>
  have an empty enclosure length, processed plus failed is \<open>K - M + 1\<close> (the cover task
  counts as processed), and downloaded is at most processed plus failed.
\<close>

theorem Process_counters_consistent:
  assumes "jobs \<noteq> []"
    and "Process_counters PS rfc (NewGlsdl PS home n) cover_io url progress jobs = Inr dl'"
  shows "statProcess dl' + statFail dl' = int (length jobs) - int (count_empty jobs) + 1 \<and>
         statDl dl' \<le> statProcess dl' + statFail dl'"
proof -
  obtain dl1 effs where c: "cover_task PS (NewGlsdl PS home n) cover_io url = (dl1, effs)"
    by (cases "cover_task PS (NewGlsdl PS home n) cover_io url")
  then have r: "run_workers PS rfc dl1 jobs = Inr dl'"
    using assms by (simp add: Process_counters_def)
  have z: "statDl (NewGlsdl PS home n) = 0" "statProcess (NewGlsdl PS home n) = 0"
    "statFail (NewGlsdl PS home n) = 0"
    by (simp_all add: NewGlsdl_def)
  show ?thesis using cover_task_counts[OF c] run_workers_counts[OF r] z by simp
qed

theorem Process_counters_consistent_witness:
  "[(ep1, io_bad_tag)] \<noteq> [] \<and>
   Process_counters slash no_rfc (NewGlsdl slash (str ''/home/u'') 4) io_ok (str ''http://x/cover.png'')
      CoverFinished [(ep1, io_bad_tag)] = Inr (dl0\<lparr>statDl := 2, statProcess := 1, statFail := 1\<rparr>) \<and>
   statProcess (dl0\<lparr>statDl := 2, statProcess := 1, statFail := 1\<rparr>)
     + statFail (dl0\<lparr>statDl := 2, statProcess := 1, statFail := 1\<rparr>)
     = int (length [(ep1, io_bad_tag)]) - int (count_empty [(ep1, io_bad_tag)]) + 1 \<and>
   statDl (dl0\<lparr>statDl := 2, statProcess := 1, statFail := 1\<rparr>)
     \<le> statProcess (dl0\<lparr>statDl := 2, statProcess := 1, statFail := 1\<rparr>)
       + statFail (dl0\<lparr>statDl := 2, statProcess := 1, statFail := 1\<rparr>)"
proof -
  have ne: "[(ep1, io_bad_tag)] \<noteq> []" by simp
  have h: "Process_counters slash no_rfc (NewGlsdl slash (str ''/home/u'') 4) io_ok (str ''http://x/cover.png'')
      CoverFinished [(ep1, io_bad_tag)] = Inr (dl0\<lparr>statDl := 2, statProcess := 1, statFail := 1\<rparr>)"
    using Process_counters_example[of CoverFinished] by (simp add: dl0_def)
  from Process_counters_consistent[OF ne h] h show ?thesis by simp
qed

end
